theory Spec2Isabelle
  imports Complex_Main "HOL-Library.Char_ord" "HOL-Library.List_Lexorder"
begin

section \<open>The Go values the model package computes with\<close>

subsection \<open>float64\<close>

text \<open>
  Every price, volume and balance of \<^verbatim>\<open>model.go\<close> is a Go \<^verbatim>\<open>float64\<close>, an IEEE 754
  binary64 number. A finite float is kept as the rational number it denotes (\<open>Fin q\<close>, with
  \<open>Fin 0\<close> for \<open>+0\<close>); the negative zero, the two infinities and the not-a-number are
  values of their own. NaN payloads are not told apart. An operation computes the exact
  rational result and rounds it to the nearest binary64 number, ties to even: 53 bits of
  mantissa, gradual underflow below \<^verbatim>\<open>2^-1022\<close>, overflow to an infinity from \<^verbatim>\<open>2^1024\<close>.
  The type holds every binary64 value (and rationals that are none, on which the
  operations are defined all the same); a statement about all of its values is one about
  all floats.
\<close>

datatype float64 = Fin rat | NegZero | PosInf | NegInf | NaN

text \<open>The number of binary digits of a positive integer.\<close>

function bitlen :: "int \<Rightarrow> int" where
  "bitlen n = (if n \<le> 0 then 0 else 1 + bitlen (n div 2))"
  by pat_completeness auto
termination
  by (relation "measure nat") auto

declare bitlen.simps [simp del]

text \<open>For \<open>a > 0\<close>, the exponent \<open>e\<close> with \<open>pow2 e \<le> a < pow2 (e + 1)\<close> (\<open>pow2\<close> is below).\<close>

definition floor_log2 :: "rat \<Rightarrow> int" where
  "floor_log2 a = (if 1 \<le> a then bitlen \<lfloor>a\<rfloor> - 1 else - bitlen (\<lceil>1 / a\<rceil> - 1))"

definition pow2 :: "int \<Rightarrow> rat" where
  "pow2 e = (if 0 \<le> e then 2 ^ nat e else 1 / 2 ^ nat (- e))"

text \<open>Rounding to the nearest integer, a tie to the even one.\<close>

definition round_even :: "rat \<Rightarrow> int" where
  "round_even x =
     (let f = \<lfloor>x\<rfloor>; r = x - of_int f
      in if r < 1 / 2 then f else if 1 / 2 < r then f + 1
         else if even f then f else f + 1)"

text \<open>
  Rounding a rational to binary64. The unit in the last place is \<open>pow2 (e - 52)\<close> for the
  exponent \<open>e\<close> of the number, and \<open>pow2 (- 1074)\<close> for a subnormal one. A nonzero number that
  rounds to zero keeps its sign.
\<close>

definition f64_round :: "rat \<Rightarrow> float64" where
  "f64_round q =
     (if q = 0 then Fin 0
      else let a = \<bar>q\<bar>;
               e = max (floor_log2 a) (- 1022);
               u = pow2 (e - 52);
               v = of_int (round_even (a / u)) * u
           in if pow2 1024 \<le> v then (if q < 0 then NegInf else PosInf)
              else if v = 0 then (if q < 0 then NegZero else Fin 0)
              else Fin (if q < 0 then - v else v))"

fun f64_val :: "float64 \<Rightarrow> rat" where
  "f64_val (Fin q) = q"
| "f64_val _ = 0"

fun f64_signbit :: "float64 \<Rightarrow> bool" where
  "f64_signbit (Fin q) = (q < 0)"
| "f64_signbit NegZero = True"
| "f64_signbit NegInf = True"
| "f64_signbit _ = False"

fun f64_is_zero :: "float64 \<Rightarrow> bool" where
  "f64_is_zero (Fin q) = (q = 0)"
| "f64_is_zero NegZero = True"
| "f64_is_zero _ = False"

fun f64_is_inf :: "float64 \<Rightarrow> bool" where
  "f64_is_inf PosInf = True"
| "f64_is_inf NegInf = True"
| "f64_is_inf _ = False"

definition f64_inf :: "bool \<Rightarrow> float64" where
  "f64_inf negative = (if negative then NegInf else PosInf)"

definition f64_zero :: "bool \<Rightarrow> float64" where
  "f64_zero negative = (if negative then NegZero else Fin 0)"

fun f64_neg :: "float64 \<Rightarrow> float64" where
  "f64_neg (Fin q) = (if q = 0 then NegZero else Fin (- q))"
| "f64_neg NegZero = Fin 0"
| "f64_neg PosInf = NegInf"
| "f64_neg NegInf = PosInf"
| "f64_neg NaN = NaN"

text \<open>Go's \<^verbatim>\<open>x + y\<close>. An exact sum of zero is \<open>+0\<close>, except \<open>-0 + -0\<close>.\<close>

fun f64_add :: "float64 \<Rightarrow> float64 \<Rightarrow> float64" where
  "f64_add NaN _ = NaN"
| "f64_add _ NaN = NaN"
| "f64_add PosInf NegInf = NaN"
| "f64_add NegInf PosInf = NaN"
| "f64_add PosInf _ = PosInf"
| "f64_add _ PosInf = PosInf"
| "f64_add NegInf _ = NegInf"
| "f64_add _ NegInf = NegInf"
| "f64_add NegZero NegZero = NegZero"
| "f64_add NegZero (Fin b) = Fin b"
| "f64_add (Fin a) NegZero = Fin a"
| "f64_add (Fin a) (Fin b) = f64_round (a + b)"

text \<open>Go's \<^verbatim>\<open>x - y\<close>.\<close>

definition f64_sub :: "float64 \<Rightarrow> float64 \<Rightarrow> float64" where
  "f64_sub x y = f64_add x (f64_neg y)"

text \<open>
  Go's \<^verbatim>\<open>x / y\<close>. A float division never panics: a division by zero is an infinity,
  or NaN for \<open>0 / 0\<close>.
\<close>

definition f64_div :: "float64 \<Rightarrow> float64 \<Rightarrow> float64" where
  "f64_div x y =
     (if x = NaN \<or> y = NaN then NaN
      else let negative = (f64_signbit x \<noteq> f64_signbit y)
           in if f64_is_inf x then (if f64_is_inf y then NaN else f64_inf negative)
              else if f64_is_inf y then f64_zero negative
              else if f64_is_zero y then (if f64_is_zero x then NaN else f64_inf negative)
              else if f64_is_zero x then f64_zero negative
              else f64_round (f64_val x / f64_val y))"

text \<open>Go's \<^verbatim>\<open>x == y\<close>: the two zeros are equal, NaN equals nothing.\<close>

definition f64_eq :: "float64 \<Rightarrow> float64 \<Rightarrow> bool" where
  "f64_eq x y = (x \<noteq> NaN \<and> y \<noteq> NaN \<and> (x = y \<or> (f64_is_zero x \<and> f64_is_zero y)))"

text \<open>Go's \<^verbatim>\<open>x > y\<close>, false when either side is NaN.\<close>

fun f64_gt :: "float64 \<Rightarrow> float64 \<Rightarrow> bool" where
  "f64_gt NaN _ = False"
| "f64_gt _ NaN = False"
| "f64_gt _ PosInf = False"
| "f64_gt PosInf _ = True"
| "f64_gt NegInf _ = False"
| "f64_gt _ NegInf = True"
| "f64_gt x y = (f64_val y < f64_val x)"

text \<open>
  \<^verbatim>\<open>math.Max\<close> and \<^verbatim>\<open>math.Min\<close> of the Go library, special cases in the library's
  order: an infinity wins, then NaN, then the sign of two zeros.
\<close>

definition math_Max :: "float64 \<Rightarrow> float64 \<Rightarrow> float64" where
  "math_Max x y =
     (if x = PosInf \<or> y = PosInf then PosInf
      else if x = NaN \<or> y = NaN then NaN
      else if f64_eq x (Fin 0) \<and> f64_eq x y then (if f64_signbit x then y else x)
      else if f64_gt x y then x else y)"

definition math_Min :: "float64 \<Rightarrow> float64 \<Rightarrow> float64" where
  "math_Min x y =
     (if x = NegInf \<or> y = NegInf then NegInf
      else if x = NaN \<or> y = NaN then NaN
      else if f64_eq x (Fin 0) \<and> f64_eq x y then (if f64_signbit x then x else y)
      else if f64_gt y x then x else y)"

subsection \<open>int, panics, time.Time\<close>

text \<open>
  Go's \<^verbatim>\<open>int\<close> is a 64-bit two's complement integer (on the 64-bit platforms); its
  arithmetic wraps around. A value of the model is an \<open>int\<close> of that range, and every
  subtraction of the source is wrapped.
\<close>

definition int64_wrap :: "int \<Rightarrow> int" where
  "int64_wrap x = (x + 2 ^ 63) mod 2 ^ 64 - 2 ^ 63"

text \<open>The run-time panics of the code are values; a panicking function returns \<open>Inl\<close>.\<close>

datatype error = IndexOutOfRange | SliceBoundsOutOfRange | InterfaceConversion

definition bindE :: "error + 'a \<Rightarrow> ('a \<Rightarrow> error + 'b) \<Rightarrow> error + 'b" where
  "bindE m f = (case m of Inl e \<Rightarrow> Inl e | Inr x \<Rightarrow> f x)"

text \<open>\<^verbatim>\<open>xs[i]\<close> read, \<^verbatim>\<open>xs[i] = v\<close> and \<^verbatim>\<open>xs[start:]\<close>, with Go's bounds checks.\<close>

definition index :: "'a list \<Rightarrow> int \<Rightarrow> error + 'a" where
  "index xs i = (if 0 \<le> i \<and> i < int (length xs) then Inr (xs ! nat i) else Inl IndexOutOfRange)"

definition store :: "'a list \<Rightarrow> int \<Rightarrow> 'a \<Rightarrow> error + 'a list" where
  "store xs i v = (if 0 \<le> i \<and> i < int (length xs) then Inr (xs[nat i := v]) else Inl IndexOutOfRange)"

definition slice_from :: "'a list \<Rightarrow> int \<Rightarrow> error + 'a list" where
  "slice_from xs start =
     (if 0 \<le> start \<and> start \<le> int (length xs) then Inr (drop (nat start) xs)
      else Inl SliceBoundsOutOfRange)"

text \<open>
  A \<^verbatim>\<open>time.Time\<close> is the instant it denotes, in nanoseconds since the zero Time (which
  is the zero value of the type). \<^verbatim>\<open>t.Sub(u)\<close> is a \<^verbatim>\<open>Duration\<close>, a signed 64-bit
  count of nanoseconds, and saturates at the least and the greatest Duration. Candle
  times are wall-clock instants; monotonic clock readings are not modelled.
\<close>

type_synonym Time = int

definition Time_Sub :: "Time \<Rightarrow> Time \<Rightarrow> int" where
  "Time_Sub t u =
     (let d = t - u
      in if d < - (2 ^ 63) then - (2 ^ 63) else if 2 ^ 63 - 1 < d then 2 ^ 63 - 1 else d)"

section \<open>The data model\<close>

text \<open>
  Modelled from the spec: \<^verbatim>\<open>Series[T]\<close>, which a file of the package that is not among
  the sources declares, is an ordered sequence of values (the close, open, high, low and
  volume of a series are "parallel ordered sequences of float64"). The code agrees: it
  takes the length of a series, indexes it, ranges over it and slices it.
\<close>

type_synonym 'a Series = "'a list"

text \<open>
  The structs of the package as records; the settings and asset-information structs have
  no behaviour and are left out. The columns of a series are lists of their own: the
  model is of series whose columns do not share memory. A Go map is a finite map, the
  nil map the empty one.
\<close>

record Balance =
  Asset :: string
  Free :: float64
  Lock :: float64
  Leverage :: float64

record OHLC =
  Close :: "float64 Series"
  Open :: "float64 Series"
  High :: "float64 Series"
  Low :: "float64 Series"
  Volume :: "float64 Series"
  ChangePercent :: "float64 Series"
  IsBullMarket :: "bool list"
  Time :: "Time list"
  IsHeikinAshi :: bool

text \<open>\<^verbatim>\<open>Dataframe\<close> embeds \<^verbatim>\<open>OHLC\<close>: the record extends it.\<close>

record Dataframe = OHLC +
  Pair :: string
  LastUpdate :: Time
  Metadata :: "string \<rightharpoonup> float64 Series"

record Candle =
  Pair :: string
  Time :: Time
  UpdatedAt :: Time
  Open :: float64
  Close :: float64
  Low :: float64
  High :: float64
  Volume :: float64
  Complete :: bool
  Metadata :: "string \<rightharpoonup> float64"

record HeikinAshi =
  PreviousHACandle :: Candle

record Account =
  Balances :: "Balance list"

text \<open>The zero values \<^verbatim>\<open>Candle{}\<close> and \<^verbatim>\<open>Balance{}\<close>.\<close>

definition zero_Candle :: Candle where
  "zero_Candle =
     \<lparr>Candle.Pair = [], Candle.Time = 0, UpdatedAt = 0, Candle.Open = Fin 0,
      Candle.Close = Fin 0, Candle.Low = Fin 0, Candle.High = Fin 0, Candle.Volume = Fin 0,
      Complete = False, Candle.Metadata = Map.empty\<rparr>"

definition zero_Balance :: Balance where
  "zero_Balance = \<lparr>Asset = [], Free = Fin 0, Lock = Fin 0, Leverage = Fin 0\<rparr>"

section \<open>Candle and the Heikin Ashi recurrence\<close>

definition Candle_Empty :: "Candle \<Rightarrow> bool" where
  "Candle_Empty c \<longleftrightarrow>
     Candle.Pair c = [] \<and> f64_eq (Candle.Close c) (Fin 0) \<and> f64_eq (Candle.Open c) (Fin 0)
     \<and> f64_eq (Candle.Volume c) (Fin 0)"

definition NewHeikinAshi :: HeikinAshi where
  "NewHeikinAshi = \<lparr>PreviousHACandle = zero_Candle\<rparr>"

text \<open>
  \<^verbatim>\<open>CalculateHeikinAshi\<close> has a pointer receiver and stores the candle it computes; the
  model returns the candle and the updated recurrence.
\<close>

definition CalculateHeikinAshi :: "HeikinAshi \<Rightarrow> Candle \<Rightarrow> Candle \<times> HeikinAshi" where
  "CalculateHeikinAshi ha c =
     (let (openValue, closeValue) =
            (if Candle_Empty (PreviousHACandle ha) then (Candle.Open c, Candle.Close c)
             else (Candle.Open (PreviousHACandle ha), Candle.Close (PreviousHACandle ha)));
          hkOpen = f64_div (f64_add openValue closeValue) (Fin 2);
          hkClose =
            f64_div
              (f64_add (f64_add (f64_add (Candle.Open c) (Candle.High c)) (Candle.Low c))
                 (Candle.Close c))
              (Fin 4);
          hkHigh = math_Max (Candle.High c) (math_Max hkOpen hkClose);
          hkLow = math_Min (Candle.Low c) (math_Min hkOpen hkClose);
          hkCandle =
            zero_Candle\<lparr>Candle.Open := hkOpen, Candle.Close := hkClose, Candle.High := hkHigh,
              Candle.Low := hkLow\<rparr>
      in (hkCandle, ha\<lparr>PreviousHACandle := hkCandle\<rparr>))"

definition Candle_ToHeikinAshi :: "Candle \<Rightarrow> HeikinAshi \<Rightarrow> Candle \<times> HeikinAshi" where
  "Candle_ToHeikinAshi c ha =
     (let (haCandle, ha') = CalculateHeikinAshi ha c
      in (\<lparr>Candle.Pair = Candle.Pair c, Candle.Time = Candle.Time c, UpdatedAt = UpdatedAt c,
           Candle.Open = Candle.Open haCandle, Candle.Close = Candle.Close haCandle,
           Candle.Low = Candle.Low haCandle, Candle.High = Candle.High haCandle,
           Candle.Volume = Candle.Volume c, Complete = Complete c,
           Candle.Metadata = Map.empty\<rparr>, ha'))"

text \<open>
  A sequence of calls on one recurrence: the candles returned, in order, and the
  recurrence after the last call.
\<close>

fun CalculateHeikinAshi_seq :: "HeikinAshi \<Rightarrow> Candle list \<Rightarrow> Candle list \<times> HeikinAshi" where
  "CalculateHeikinAshi_seq ha [] = ([], ha)"
| "CalculateHeikinAshi_seq ha (c # cs) =
     (let (h, ha') = CalculateHeikinAshi ha c;
          (hs, ha'') = CalculateHeikinAshi_seq ha' cs
      in (h # hs, ha''))"

text \<open>
  \<^verbatim>\<open>Less\<close> takes an \<^verbatim>\<open>Item\<close>, an interface declared in another file of the package.
  An item is a candle or a value of another implementing type \<open>'a\<close>; the type assertion
  \<^verbatim>\<open>j.(Candle)\<close> panics on the latter. Strings compare as Go compares them, byte by byte
  (the lexicographic order of the lists of characters).
\<close>

datatype 'a Item = ItemCandle Candle | ItemOther 'a

definition Candle_Less :: "Candle \<Rightarrow> 'a Item \<Rightarrow> error + bool" where
  "Candle_Less c j =
     (case j of
        ItemOther _ \<Rightarrow> Inl InterfaceConversion
      | ItemCandle jc \<Rightarrow>
          Inr (let diff = Time_Sub (Candle.Time jc) (Candle.Time c)
               in if diff < 0 then False
                  else if 0 < diff then True
                  else let diff = Time_Sub (UpdatedAt jc) (UpdatedAt c)
                       in if diff < 0 then False
                          else if 0 < diff then True
                          else Candle.Pair c < Candle.Pair jc))"

section \<open>The OHLC series\<close>

text \<open>
  A \<^verbatim>\<open>for i := range xs\<close> loop runs over the indices \<open>[0..<length xs]\<close>; the loop
  functions take the indices left to visit. An index out of range ends the run with the
  panic.
\<close>

fun HL2_loop :: "OHLC \<Rightarrow> nat list \<Rightarrow> float64 list \<Rightarrow> error + float64 list" where
  "HL2_loop df [] result = Inr result"
| "HL2_loop df (i # is) result =
     bindE (index (OHLC.High df) (int i)) (\<lambda>h.
     bindE (index (OHLC.Low df) (int i)) (\<lambda>l.
       HL2_loop df is (result @ [f64_div (f64_add h l) (Fin 2)])))"

definition HL2 :: "OHLC \<Rightarrow> error + float64 list" where
  "HL2 df = HL2_loop df [0..<length (OHLC.Close df)] []"

fun HLC3_loop :: "OHLC \<Rightarrow> nat list \<Rightarrow> float64 list \<Rightarrow> error + float64 list" where
  "HLC3_loop df [] result = Inr result"
| "HLC3_loop df (i # is) result =
     bindE (index (OHLC.High df) (int i)) (\<lambda>h.
     bindE (index (OHLC.Low df) (int i)) (\<lambda>l.
     bindE (index (OHLC.Close df) (int i)) (\<lambda>c.
       HLC3_loop df is (result @ [f64_div (f64_add (f64_add h l) c) (Fin 3)]))))"

definition HLC3 :: "OHLC \<Rightarrow> error + float64 list" where
  "HLC3 df = HLC3_loop df [0..<length (OHLC.Close df)] []"

fun OHLC4_loop :: "OHLC \<Rightarrow> nat list \<Rightarrow> float64 list \<Rightarrow> error + float64 list" where
  "OHLC4_loop df [] result = Inr result"
| "OHLC4_loop df (i # is) result =
     bindE (index (OHLC.Open df) (int i)) (\<lambda>op.
     bindE (index (OHLC.High df) (int i)) (\<lambda>h.
     bindE (index (OHLC.Low df) (int i)) (\<lambda>l.
     bindE (index (OHLC.Close df) (int i)) (\<lambda>c.
       OHLC4_loop df is
         (result @ [f64_div (f64_add (f64_add (f64_add op h) l) c) (Fin 4)])))))"

definition OHLC4 :: "OHLC \<Rightarrow> error + float64 list" where
  "OHLC4 df = OHLC4_loop df [0..<length (OHLC.Close df)] []"

text \<open>\<^verbatim>\<open>Candle(i)\<close>: the fields the literal does not name are zero values.\<close>

definition OHLC_Candle :: "OHLC \<Rightarrow> int \<Rightarrow> error + Candle" where
  "OHLC_Candle df i =
     bindE (index (OHLC.Time df) i) (\<lambda>t.
     bindE (index (OHLC.Open df) i) (\<lambda>op.
     bindE (index (OHLC.Close df) i) (\<lambda>cl.
     bindE (index (OHLC.Low df) i) (\<lambda>lo.
     bindE (index (OHLC.High df) i) (\<lambda>hi.
     bindE (index (OHLC.Volume df) i) (\<lambda>vol.
       Inr \<lparr>Candle.Pair = [], Candle.Time = t, UpdatedAt = 0, Candle.Open = op,
            Candle.Close = cl, Candle.Low = lo, Candle.High = hi, Candle.Volume = vol,
            Complete = False, Candle.Metadata = Map.empty\<rparr>))))))"

text \<open>\<^verbatim>\<open>Last(index ...int)\<close>: the variadic argument is the list of the offsets given.\<close>

definition OHLC_Last :: "OHLC \<Rightarrow> int list \<Rightarrow> error + Candle" where
  "OHLC_Last df idx =
     (let len = int (length (OHLC.Close df))
      in if len = 0 then Inr zero_Candle
         else let position = (case idx of [] \<Rightarrow> 0 | p # _ \<Rightarrow> p);
                  i = int64_wrap (int64_wrap (len - 1) - position)
              in OHLC_Candle df i)"

text \<open>
  One round of the loop of \<^verbatim>\<open>ToHeikinAshi\<close>: the statements in the order of the source,
  every indexed read and write checked. The method works on the series in place; the
  model passes the series and the recurrence along.
\<close>

definition ToHeikinAshi_body :: "HeikinAshi \<Rightarrow> OHLC \<Rightarrow> nat \<Rightarrow> error + HeikinAshi \<times> OHLC" where
  "ToHeikinAshi_body ha df i =
     bindE (OHLC_Candle df (int i)) (\<lambda>raw.
       let (candle, ha') = Candle_ToHeikinAshi raw ha
       in bindE (store (OHLC.Close df) (int i) (Candle.Close candle)) (\<lambda>cls.
          let df = df\<lparr>OHLC.Close := cls\<rparr>
          in bindE (store (OHLC.Open df) (int i) (Candle.Open candle)) (\<lambda>ops.
          let df = df\<lparr>OHLC.Open := ops\<rparr>
          in bindE (store (OHLC.Low df) (int i) (Candle.Low candle)) (\<lambda>los.
          let df = df\<lparr>OHLC.Low := los\<rparr>
          in bindE (store (OHLC.High df) (int i) (Candle.High candle)) (\<lambda>his.
          let df = df\<lparr>OHLC.High := his\<rparr>
          in bindE (store (OHLC.Volume df) (int i) (Candle.Volume candle)) (\<lambda>vols.
          let df = df\<lparr>OHLC.Volume := vols\<rparr>
          in bindE (index (OHLC.Close df) (int i)) (\<lambda>cl.
             bindE (index (OHLC.Open df) (int i)) (\<lambda>op.
             bindE (index (OHLC.Open df) (int i)) (\<lambda>op'.
             bindE (store (ChangePercent df) (int i) (f64_div (f64_sub cl op) op')) (\<lambda>cps.
          let df = df\<lparr>ChangePercent := cps\<rparr>
          in bindE (index (OHLC.Close df) (int i)) (\<lambda>cl.
             bindE (index (OHLC.Open df) (int i)) (\<lambda>op.
               if f64_gt cl op
               then bindE (store (IsBullMarket df) (int i) True) (\<lambda>bulls.
                      Inr (ha', df\<lparr>IsBullMarket := bulls\<rparr>))
               else Inr (ha', df)))))))))))))"

fun ToHeikinAshi_loop :: "HeikinAshi \<Rightarrow> OHLC \<Rightarrow> nat list \<Rightarrow> error + OHLC" where
  "ToHeikinAshi_loop ha df [] = Inr df"
| "ToHeikinAshi_loop ha df (i # is) =
     bindE (ToHeikinAshi_body ha df i) (\<lambda>(ha', df'). ToHeikinAshi_loop ha' df' is)"

text \<open>
  \<^verbatim>\<open>ToHeikinAshi\<close> returns its receiver: the result of the model is the series after the
  call. \<^verbatim>\<open>make\<close> fills the two derived columns with zero values.
\<close>

definition OHLC_ToHeikinAshi :: "OHLC \<Rightarrow> error + OHLC" where
  "OHLC_ToHeikinAshi df =
     (let ha = NewHeikinAshi;
          df = df\<lparr>ChangePercent := replicate (length (OHLC.Close df)) (Fin 0)\<rparr>;
          df = df\<lparr>IsBullMarket := replicate (length (OHLC.Close df)) False\<rparr>
      in bindE (ToHeikinAshi_loop ha df [0..<length (OHLC.Time df)]) (\<lambda>df.
           Inr (df\<lparr>IsHeikinAshi := True\<rparr>)))"

section \<open>Dataframe and Account\<close>

text \<open>
  \<^verbatim>\<open>Sample\<close> has a value receiver: \<^verbatim>\<open>sample := df\<close> copies the struct, the map field
  with it (a Go map value is a reference to the one map).
\<close>

definition Sample :: "Dataframe \<Rightarrow> int \<Rightarrow> error + Dataframe" where
  "Sample df positions =
     (let sample = df;
          size = int (length (OHLC.Time sample));
          start = int64_wrap (size - positions)
      in if start \<le> 0 then Inr df
         else bindE (slice_from (OHLC.Close sample) start) (\<lambda>cls.
              let sample = sample\<lparr>OHLC.Close := cls\<rparr>
              in bindE (slice_from (OHLC.Open sample) start) (\<lambda>ops.
              let sample = sample\<lparr>OHLC.Open := ops\<rparr>
              in bindE (slice_from (OHLC.Low sample) start) (\<lambda>los.
              let sample = sample\<lparr>OHLC.Low := los\<rparr>
              in bindE (slice_from (OHLC.High sample) start) (\<lambda>his.
              let sample = sample\<lparr>OHLC.High := his\<rparr>
              in bindE (slice_from (OHLC.Volume sample) start) (\<lambda>vols.
              let sample = sample\<lparr>OHLC.Volume := vols\<rparr>
              in bindE (slice_from (OHLC.Time sample) start) (\<lambda>ts.
              let sample = sample\<lparr>OHLC.Time := ts\<rparr>
              in Inr sample)))))))"

text \<open>
  The loop of \<^verbatim>\<open>Balance\<close>, over the balances left to visit, with the four local
  variables. The \<^verbatim>\<open>switch\<close> takes the first case that matches; the loop ends early
  once both flags are set.
\<close>

fun Balance_loop ::
  "string \<Rightarrow> string \<Rightarrow> Balance list \<Rightarrow> Balance \<times> Balance \<times> bool \<times> bool \<Rightarrow> Balance \<times> Balance"
where
  "Balance_loop assetTick quoteTick [] (assetBalance, quoteBalance, isSetAsset, isSetQuote) =
     (assetBalance, quoteBalance)"
| "Balance_loop assetTick quoteTick (balance # rest)
       (assetBalance, quoteBalance, isSetAsset, isSetQuote) =
     (let (assetBalance, quoteBalance, isSetAsset, isSetQuote) =
            (if Asset balance = assetTick then (balance, quoteBalance, True, isSetQuote)
             else if Asset balance = quoteTick then (assetBalance, balance, isSetAsset, True)
             else (assetBalance, quoteBalance, isSetAsset, isSetQuote))
      in if isSetAsset \<and> isSetQuote then (assetBalance, quoteBalance)
         else Balance_loop assetTick quoteTick rest
                (assetBalance, quoteBalance, isSetAsset, isSetQuote))"

definition Account_Balance :: "Account \<Rightarrow> string \<Rightarrow> string \<Rightarrow> Balance \<times> Balance" where
  "Account_Balance a assetTick quoteTick =
     Balance_loop assetTick quoteTick (Balances a) (zero_Balance, zero_Balance, False, False)"

section \<open>Series invariant, reference descriptions and sample data\<close>

text \<open>
  The invariant of the data model: the five core columns and the time column have the
  same length, index \<open>i\<close> being the same observation in each. A Go slice has fewer than
  \<^verbatim>\<open>2^63\<close> elements.
\<close>

definition aligned :: "'a OHLC_scheme \<Rightarrow> bool" where
  "aligned df \<longleftrightarrow>
     length (OHLC.Close df) = length (OHLC.Time df)
     \<and> length (OHLC.Open df) = length (OHLC.Time df)
     \<and> length (OHLC.High df) = length (OHLC.Time df)
     \<and> length (OHLC.Low df) = length (OHLC.Time df)
     \<and> length (OHLC.Volume df) = length (OHLC.Time df)
     \<and> int (length (OHLC.Time df)) < 2 ^ 63"

text \<open>The candles of a series, index by index, as \<^verbatim>\<open>Candle(i)\<close> assembles them.\<close>

definition candle_at :: "OHLC \<Rightarrow> nat \<Rightarrow> Candle" where
  "candle_at df i =
     \<lparr>Candle.Pair = [], Candle.Time = OHLC.Time df ! i, UpdatedAt = 0,
      Candle.Open = OHLC.Open df ! i, Candle.Close = OHLC.Close df ! i,
      Candle.Low = OHLC.Low df ! i, Candle.High = OHLC.High df ! i,
      Candle.Volume = OHLC.Volume df ! i, Complete = False, Candle.Metadata = Map.empty\<rparr>"

definition raw_candles :: "OHLC \<Rightarrow> Candle list" where
  "raw_candles df = map (candle_at df) [0..<length (OHLC.Time df)]"

text \<open>
  The words of the specification for \<^verbatim>\<open>ToHeikinAshi\<close>: one recurrence, the candles
  smoothed through it in ascending order.
\<close>

fun smooth_in_order :: "HeikinAshi \<Rightarrow> Candle list \<Rightarrow> Candle list" where
  "smooth_in_order ha [] = []"
| "smooth_in_order ha (c # cs) =
     (let (h, ha') = Candle_ToHeikinAshi c ha in h # smooth_in_order ha' cs)"

text \<open>Sample data: a candle of four prices, and a series of two observations.\<close>

definition price_candle :: "rat \<Rightarrow> rat \<Rightarrow> rat \<Rightarrow> rat \<Rightarrow> Candle" where
  "price_candle op cl hi lo =
     zero_Candle\<lparr>Candle.Open := Fin op, Candle.Close := Fin cl, Candle.High := Fin hi,
       Candle.Low := Fin lo\<rparr>"

definition two_series :: OHLC where
  "two_series =
     \<lparr>OHLC.Close = [Fin 20, Fin 30], OHLC.Open = [Fin 10, Fin 20],
      OHLC.High = [Fin 25, Fin 35], OHLC.Low = [Fin 5, Fin 15],
      OHLC.Volume = [Fin 7, Fin 9], ChangePercent = [], IsBullMarket = [],
      OHLC.Time = [60, 120], IsHeikinAshi = False\<rparr>"

definition two_frame :: Dataframe where
  "two_frame =
     OHLC.extend two_series
       (Dataframe.fields ''BTCUSDT'' 120 [''ema'' \<mapsto> [Fin 1, Fin 2]])"

definition btc_eth :: Account where
  "btc_eth =
     \<lparr>Balances =
        [\<lparr>Asset = ''BTC'', Free = Fin 1, Lock = Fin (1 / 2), Leverage = Fin 0\<rparr>,
         \<lparr>Asset = ''ETH'', Free = Fin 2, Lock = Fin 0, Leverage = Fin 0\<rparr>]\<rparr>"

text \<open>An empty series, and an account that lists one asset twice.\<close>

definition no_series :: OHLC where
  "no_series =
     \<lparr>OHLC.Close = [], OHLC.Open = [], OHLC.High = [], OHLC.Low = [], OHLC.Volume = [],
      ChangePercent = [], IsBullMarket = [], OHLC.Time = [], IsHeikinAshi = False\<rparr>"

definition btc_twice :: Account where
  "btc_twice =
     \<lparr>Balances =
        [\<lparr>Asset = ''BTC'', Free = Fin 1, Lock = Fin 0, Leverage = Fin 0\<rparr>,
         \<lparr>Asset = ''BTC'', Free = Fin 2, Lock = Fin 0, Leverage = Fin 0\<rparr>]\<rparr>"

text \<open>
  The words of the amended description of \<^verbatim>\<open>Balance\<close>. The entries the scan visits: all
  of them when the two symbols are equal or one of them is the asset of no entry;
  otherwise the entries up to and including the first one by which both symbols have
  occurred. And the last entry of a list with a given asset, with a default for a list
  that has none.
\<close>

definition last_with :: "Balance \<Rightarrow> string \<Rightarrow> Balance list \<Rightarrow> Balance" where
  "last_with d s bs =
     (case filter (\<lambda>b. Asset b = s) bs of [] \<Rightarrow> d | m # ms \<Rightarrow> last (m # ms))"

definition scanned :: "string \<Rightarrow> string \<Rightarrow> Balance list \<Rightarrow> Balance list" where
  "scanned assetTick quoteTick bs =
     (if assetTick = quoteTick then bs
      else take
             (Suc (max (length (takeWhile (\<lambda>b. Asset b \<noteq> assetTick) bs))
                       (length (takeWhile (\<lambda>b. Asset b \<noteq> quoteTick) bs))))
             bs)"

text \<open>An account that lists two assets more than once.\<close>

definition btc_usdt_repeated :: Account where
  "btc_usdt_repeated =
     \<lparr>Balances =
        [\<lparr>Asset = ''BTC'', Free = Fin 1, Lock = Fin 0, Leverage = Fin 0\<rparr>,
         \<lparr>Asset = ''BTC'', Free = Fin 2, Lock = Fin 0, Leverage = Fin 0\<rparr>,
         \<lparr>Asset = ''USDT'', Free = Fin 5, Lock = Fin 0, Leverage = Fin 0\<rparr>,
         \<lparr>Asset = ''BTC'', Free = Fin 3, Lock = Fin 0, Leverage = Fin 0\<rparr>,
         \<lparr>Asset = ''USDT'', Free = Fin 6, Lock = Fin 0, Leverage = Fin 0\<rparr>]\<rparr>"

section \<open>Evaluation of floats\<close>

text \<open>
  The arithmetic of the sample data, computed once. The numbers are small integers and
  halves, on which the operations are exact; the one quotient that is not, \<open>10 / 15\<close>
  further down, is rounded to the 53 bits of a binary64 mantissa.
\<close>

lemma bitlen_numeral:
  "bitlen 0 = 0" "bitlen 1 = 1" "bitlen (numeral k) = 1 + bitlen (numeral k div 2)"
  by (simp_all add: bitlen.simps)

lemmas f64_eval = f64_round_def floor_log2_def round_even_def pow2_def Let_def bitlen_numeral
  f64_div_def f64_eq_def math_Max_def math_Min_def f64_inf_def f64_zero_def f64_sub_def

lemma f64_eq_zero_zero: "f64_eq (Fin 0) (Fin 0)"
  by (simp add: f64_eq_def)

lemma f64_special_cases:
  "f64_div (Fin 1) (Fin 0) = PosInf" "f64_div (Fin (- 1)) (Fin 0) = NegInf"
  "f64_div (Fin 0) (Fin 0) = NaN" "f64_div (Fin 1) NegZero = NegInf"
  "f64_eq NegZero (Fin 0)" "\<not> f64_eq NaN NaN" "\<not> f64_gt NaN (Fin 0)"
  "math_Max (Fin 1) NaN = NaN" "math_Max NaN PosInf = PosInf"
  "math_Max NegZero (Fin 0) = Fin 0" "math_Min (Fin 0) NegZero = NegZero"
  by (simp_all add: f64_div_def f64_eq_def f64_inf_def math_Max_def math_Min_def)

lemma f64_avg_10_20: "f64_div (f64_add (Fin 10) (Fin 20)) (Fin 2) = Fin 15"
  by (simp add: f64_eval)

lemma f64_avg_15_15: "f64_div (f64_add (Fin 15) (Fin 15)) (Fin 2) = Fin 15"
  by (simp add: f64_eval)

lemma f64_avg_0_0: "f64_div (f64_add (Fin 0) (Fin 0)) (Fin 2) = Fin 0"
  by (simp add: f64_eval)

lemma f64_mean_10_25_5_20:
  "f64_div (f64_add (f64_add (f64_add (Fin 10) (Fin 25)) (Fin 5)) (Fin 20)) (Fin 4) = Fin 15"
  by (simp add: f64_eval)

lemma f64_mean_20_35_15_30:
  "f64_div (f64_add (f64_add (f64_add (Fin 20) (Fin 35)) (Fin 15)) (Fin 30)) (Fin 4) = Fin 25"
  by (simp add: f64_eval)

lemma f64_mean_0_0_0_0:
  "f64_div (f64_add (f64_add (f64_add (Fin 0) (Fin 0)) (Fin 0)) (Fin 0)) (Fin 4) = Fin 0"
  by (simp add: f64_eval)

lemma f64_extremes:
  "math_Max (Fin 25) (math_Max (Fin 15) (Fin 15)) = Fin 25"
  "math_Min (Fin 5) (math_Min (Fin 15) (Fin 15)) = Fin 5"
  "math_Max (Fin 35) (math_Max (Fin 15) (Fin 25)) = Fin 35"
  "math_Min (Fin 15) (math_Min (Fin 15) (Fin 25)) = Fin 15"
  "math_Max (Fin 0) (math_Max (Fin 0) (Fin 0)) = Fin 0"
  "math_Min (Fin 0) (math_Min (Fin 0) (Fin 0)) = Fin 0"
  by (simp_all add: math_Max_def math_Min_def f64_eq_def)

lemmas f64_samples = f64_avg_10_20 f64_avg_15_15 f64_avg_0_0 f64_mean_10_25_5_20
  f64_mean_20_35_15_30 f64_mean_0_0_0_0 f64_extremes

section \<open>The Heikin Ashi recurrence\<close>

lemma Empty_zero_Candle: "Candle_Empty zero_Candle"
  by (simp add: Candle_Empty_def zero_Candle_def f64_eq_def)

lemma Empty_fresh: "Candle_Empty (PreviousHACandle NewHeikinAshi)"
  by (simp add: NewHeikinAshi_def Empty_zero_Candle)

lemma price_candle_sel [simp]:
  "Candle.Open (price_candle op cl hi lo) = Fin op"
  "Candle.Close (price_candle op cl hi lo) = Fin cl"
  "Candle.High (price_candle op cl hi lo) = Fin hi"
  "Candle.Low (price_candle op cl hi lo) = Fin lo"
  by (simp_all add: price_candle_def)

lemma Empty_price_candle:
  "Candle_Empty (price_candle op cl hi lo) \<longleftrightarrow> op = 0 \<and> cl = 0"
  by (auto simp add: Candle_Empty_def price_candle_def zero_Candle_def f64_eq_def)

lemma Calc_state: "snd (CalculateHeikinAshi ha c) = \<lparr>PreviousHACandle = fst (CalculateHeikinAshi ha c)\<rparr>"
  by (simp add: CalculateHeikinAshi_def Let_def split: prod.splits)

lemma Calc_Pair_Volume:
  "Candle.Pair (fst (CalculateHeikinAshi ha c)) = []"
  "Candle.Volume (fst (CalculateHeikinAshi ha c)) = Fin 0"
  by (simp_all add: CalculateHeikinAshi_def Let_def zero_Candle_def split: prod.splits)

lemma Calc_Open:
  "Candle.Open (fst (CalculateHeikinAshi ha c)) =
     (if Candle_Empty (PreviousHACandle ha)
      then f64_div (f64_add (Candle.Open c) (Candle.Close c)) (Fin 2)
      else f64_div (f64_add (Candle.Open (PreviousHACandle ha)) (Candle.Close (PreviousHACandle ha))) (Fin 2))"
  by (simp add: CalculateHeikinAshi_def Let_def split: prod.splits)

lemma Calc_Empty:
  "Candle_Empty (fst (CalculateHeikinAshi ha c)) \<longleftrightarrow>
     f64_eq (Candle.Open (fst (CalculateHeikinAshi ha c))) (Fin 0)
     \<and> f64_eq (Candle.Close (fst (CalculateHeikinAshi ha c))) (Fin 0)"
  by (auto simp add: Candle_Empty_def Calc_Pair_Volume f64_eq_zero_zero)

lemma seq_length: "length (fst (CalculateHeikinAshi_seq ha cs)) = length cs"
  by (induction cs arbitrary: ha) (simp_all add: Let_def case_prod_beta)

lemma seq_take:
  "fst (CalculateHeikinAshi_seq ha (take n cs)) = take n (fst (CalculateHeikinAshi_seq ha cs))"
proof (induction cs arbitrary: ha n)
  case Nil
  then show ?case by simp
next
  case (Cons c cs)
  show ?case
  proof (cases n)
    case 0
    then show ?thesis by simp
  next
    case (Suc m)
    then show ?thesis
      using Cons.IH [of "snd (CalculateHeikinAshi ha c)" m]
      by (simp add: Let_def case_prod_beta)
  qed
qed

lemma seq_state:
  "cs \<noteq> [] \<Longrightarrow> PreviousHACandle (snd (CalculateHeikinAshi_seq ha cs)) = last (fst (CalculateHeikinAshi_seq ha cs))"
proof (induction cs arbitrary: ha)
  case Nil
  then show ?case by simp
next
  case (Cons c cs)
  show ?case
  proof (cases cs)
    case Nil
    then show ?thesis
      using Calc_state [of ha c] by (simp add: Let_def case_prod_beta)
  next
    case (Cons d ds)
    then have "cs \<noteq> []" by simp
    from Cons.IH [OF this, of "snd (CalculateHeikinAshi ha c)"] Cons show ?thesis
      by (simp add: Let_def case_prod_beta)
  qed
qed

lemma seq_Open_Suc:
  "Suc i < length cs \<Longrightarrow>
   Candle.Open (fst (CalculateHeikinAshi_seq ha cs) ! Suc i) =
     (let p = fst (CalculateHeikinAshi_seq ha cs) ! i
      in if f64_eq (Candle.Open p) (Fin 0) \<and> f64_eq (Candle.Close p) (Fin 0)
         then f64_div (f64_add (Candle.Open (cs ! Suc i)) (Candle.Close (cs ! Suc i))) (Fin 2)
         else f64_div (f64_add (Candle.Open p) (Candle.Close p)) (Fin 2))"
proof (induction cs arbitrary: ha i)
  case Nil
  then show ?case by simp
next
  case (Cons c cs)
  obtain h ha' where step: "CalculateHeikinAshi ha c = (h, ha')"
    by (cases "CalculateHeikinAshi ha c")
  have ha': "ha' = \<lparr>PreviousHACandle = h\<rparr>"
    using Calc_state [of ha c] step by simp
  show ?case
  proof (cases i)
    case 0
    with Cons.prems obtain d ds where cs: "cs = d # ds"
      by (cases cs) auto
    have "Candle_Empty h \<longleftrightarrow> f64_eq (Candle.Open h) (Fin 0) \<and> f64_eq (Candle.Close h) (Fin 0)"
      using Calc_Empty [of ha c] step by simp
    then show ?thesis
      using 0 cs step ha' Calc_Open [of ha' d]
      by (auto simp add: Let_def case_prod_beta)
  next
    case (Suc j)
    with Cons.prems have "Suc j < length cs" by simp
    from Cons.IH [OF this, of ha'] show ?thesis
      using Suc step by (simp add: Let_def case_prod_beta)
  qed
qed



lemma last_take_Suc: "i < length xs \<Longrightarrow> last (take (Suc i) xs) = xs ! i"
  by (simp add: take_Suc_conv_app_nth)

subsection \<open>Calls on the sample candles\<close>

lemma Calc_fresh_10:
  assumes "Candle.Open c = Fin 10" "Candle.Close c = Fin 20" "Candle.High c = Fin 25"
    "Candle.Low c = Fin 5"
  shows "CalculateHeikinAshi NewHeikinAshi c =
    (price_candle 15 15 25 5, \<lparr>PreviousHACandle = price_candle 15 15 25 5\<rparr>)"
  using assms
  by (simp add: CalculateHeikinAshi_def Empty_zero_Candle price_candle_def NewHeikinAshi_def
      Let_def f64_samples del: f64_add.simps)

lemma Calc_fresh_0:
  assumes "Candle.Open c = Fin 0" "Candle.Close c = Fin 0" "Candle.High c = Fin 0"
    "Candle.Low c = Fin 0"
  shows "CalculateHeikinAshi NewHeikinAshi c =
    (price_candle 0 0 0 0, \<lparr>PreviousHACandle = price_candle 0 0 0 0\<rparr>)"
  using assms
  by (simp add: CalculateHeikinAshi_def Empty_zero_Candle price_candle_def NewHeikinAshi_def
      Let_def f64_samples del: f64_add.simps)

lemma Calc_after_0:
  assumes "Candle.Open c = Fin 10" "Candle.Close c = Fin 20" "Candle.High c = Fin 25"
    "Candle.Low c = Fin 5"
  shows "CalculateHeikinAshi \<lparr>PreviousHACandle = price_candle 0 0 0 0\<rparr> c =
    (price_candle 15 15 25 5, \<lparr>PreviousHACandle = price_candle 15 15 25 5\<rparr>)"
  using assms
  by (simp add: CalculateHeikinAshi_def Empty_price_candle Let_def f64_samples
      del: f64_add.simps)
    (simp add: price_candle_def)

lemma Calc_after_15:
  assumes "Candle.Open c = Fin 20" "Candle.Close c = Fin 30" "Candle.High c = Fin 35"
    "Candle.Low c = Fin 15"
  shows "CalculateHeikinAshi \<lparr>PreviousHACandle = price_candle 15 15 25 5\<rparr> c =
    (price_candle 15 25 35 15, \<lparr>PreviousHACandle = price_candle 15 25 35 15\<rparr>)"
  using assms
  by (simp add: CalculateHeikinAshi_def Empty_price_candle Let_def del: f64_add.simps)
    (simp add: price_candle_def f64_samples del: f64_add.simps)

lemma seq_0_10:
  "CalculateHeikinAshi_seq NewHeikinAshi [price_candle 0 0 0 0, price_candle 10 20 25 5] =
     ([price_candle 0 0 0 0, price_candle 15 15 25 5],
      \<lparr>PreviousHACandle = price_candle 15 15 25 5\<rparr>)"
  by (simp add: Calc_fresh_0 Calc_after_0)

lemma seq_10_20:
  "CalculateHeikinAshi_seq NewHeikinAshi [price_candle 10 20 25 5, price_candle 20 30 35 15] =
     ([price_candle 15 15 25 5, price_candle 15 25 35 15],
      \<lparr>PreviousHACandle = price_candle 15 25 35 15\<rparr>)"
  by (simp add: Calc_fresh_10 Calc_after_15)

lemma seq_10:
  "CalculateHeikinAshi_seq NewHeikinAshi [price_candle 10 20 25 5] =
     ([price_candle 15 15 25 5], \<lparr>PreviousHACandle = price_candle 15 15 25 5\<rparr>)"
  by (simp add: Calc_fresh_10)


subsection \<open>The first call\<close>

text \<open>
  C1. The first call on a fresh recurrence seeds the open from the raw candle itself:
  the smoothed open is \<open>(open + close) / 2\<close>, the smoothed close
  \<open>(open + high + low + close) / 4\<close>, the smoothed high and low the maximum and the
  minimum of the raw one and the two smoothed prices. For the candle of open 10, close
  20, high 25 and low 5 (whatever its other fields) the result is 15, 15, 25, 5.
\<close>

theorem first_call_self_seeded:
  "(let r = fst (CalculateHeikinAshi NewHeikinAshi c)
    in Candle.Open r = f64_div (f64_add (Candle.Open c) (Candle.Close c)) (Fin 2)
     \<and> Candle.Close r =
         f64_div
           (f64_add (f64_add (f64_add (Candle.Open c) (Candle.High c)) (Candle.Low c))
              (Candle.Close c))
           (Fin 4)
     \<and> Candle.High r = math_Max (Candle.High c) (math_Max (Candle.Open r) (Candle.Close r))
     \<and> Candle.Low r = math_Min (Candle.Low c) (math_Min (Candle.Open r) (Candle.Close r)))
   \<and> (let r = fst (CalculateHeikinAshi NewHeikinAshi
                 (c\<lparr>Candle.Open := Fin 10, Candle.Close := Fin 20, Candle.High := Fin 25,
                    Candle.Low := Fin 5\<rparr>))
      in Candle.Open r = Fin 15 \<and> Candle.Close r = Fin 15 \<and> Candle.High r = Fin 25
       \<and> Candle.Low r = Fin 5)"
proof -
  have gen: "let r = fst (CalculateHeikinAshi NewHeikinAshi d)
    in Candle.Open r = f64_div (f64_add (Candle.Open d) (Candle.Close d)) (Fin 2)
     \<and> Candle.Close r =
         f64_div
           (f64_add (f64_add (f64_add (Candle.Open d) (Candle.High d)) (Candle.Low d))
              (Candle.Close d))
           (Fin 4)
     \<and> Candle.High r = math_Max (Candle.High d) (math_Max (Candle.Open r) (Candle.Close r))
     \<and> Candle.Low r = math_Min (Candle.Low d) (math_Min (Candle.Open r) (Candle.Close r))"
    for d
    by (simp add: CalculateHeikinAshi_def Empty_fresh Let_def)
  show ?thesis
    using gen [of c]
      gen [of "c\<lparr>Candle.Open := Fin 10, Candle.Close := Fin 20, Candle.High := Fin 25,
                Candle.Low := Fin 5\<rparr>"]
    by (simp add: Let_def f64_samples del: f64_add.simps)
qed

subsection \<open>Later calls\<close>

text \<open>
  The claim C2 as it is written fails after a smoothed candle whose open and close are
  both zero. The first of these two calls is on a candle of zero prices: its smoothed
  candle is all zero. The second call then returns the open 15, the average of the raw
  candle's own open and close, where the average of the previous smoothed open and close
  is 0.
\<close>

theorem zero_candle_reseeds_counterexample:
  "Candle.Open (fst (CalculateHeikinAshi_seq NewHeikinAshi
                       [price_candle 0 0 0 0, price_candle 10 20 25 5]) ! 1) = Fin 15
   \<and> f64_div
        (f64_add
           (Candle.Open (fst (CalculateHeikinAshi_seq NewHeikinAshi
                                [price_candle 0 0 0 0, price_candle 10 20 25 5]) ! 0))
           (Candle.Close (fst (CalculateHeikinAshi_seq NewHeikinAshi
                                 [price_candle 0 0 0 0, price_candle 10 20 25 5]) ! 0)))
        (Fin 2) = Fin 0"
  unfolding seq_0_10 by (simp add: f64_avg_0_0 del: f64_add.simps)

text \<open>
  C2 (amended). For every sequence of calls on one recurrence, whatever its state at the
  start: after each call the stored previous candle is the smoothed candle that call
  returned; and the open of each later smoothed candle is the average of the open and
  the close of the smoothed candle before it, provided these two are not both equal to
  zero.
\<close>

theorem seq_recurrence:
  "(\<forall>i < length cs.
      PreviousHACandle (snd (CalculateHeikinAshi_seq ha (take (Suc i) cs))) =
        fst (CalculateHeikinAshi_seq ha cs) ! i)
   \<and> (\<forall>i. Suc i < length cs \<longrightarrow>
        \<not> (f64_eq (Candle.Open (fst (CalculateHeikinAshi_seq ha cs) ! i)) (Fin 0)
           \<and> f64_eq (Candle.Close (fst (CalculateHeikinAshi_seq ha cs) ! i)) (Fin 0)) \<longrightarrow>
        Candle.Open (fst (CalculateHeikinAshi_seq ha cs) ! Suc i) =
          f64_div
            (f64_add (Candle.Open (fst (CalculateHeikinAshi_seq ha cs) ! i))
               (Candle.Close (fst (CalculateHeikinAshi_seq ha cs) ! i)))
            (Fin 2))"
proof (intro conjI allI impI)
  fix i
  assume i: "i < length cs"
  then have "take (Suc i) cs \<noteq> []" by auto
  from seq_state [OF this, of ha]
  have "PreviousHACandle (snd (CalculateHeikinAshi_seq ha (take (Suc i) cs))) =
          last (take (Suc i) (fst (CalculateHeikinAshi_seq ha cs)))"
    by (simp add: seq_take)
  then show "PreviousHACandle (snd (CalculateHeikinAshi_seq ha (take (Suc i) cs))) =
        fst (CalculateHeikinAshi_seq ha cs) ! i"
    using i by (simp add: last_take_Suc seq_length)
next
  fix i
  assume "Suc i < length cs"
    and "\<not> (f64_eq (Candle.Open (fst (CalculateHeikinAshi_seq ha cs) ! i)) (Fin 0)
           \<and> f64_eq (Candle.Close (fst (CalculateHeikinAshi_seq ha cs) ! i)) (Fin 0))"
  then show "Candle.Open (fst (CalculateHeikinAshi_seq ha cs) ! Suc i) =
          f64_div
            (f64_add (Candle.Open (fst (CalculateHeikinAshi_seq ha cs) ! i))
               (Candle.Close (fst (CalculateHeikinAshi_seq ha cs) ! i)))
            (Fin 2)"
    using seq_Open_Suc [of i cs ha] by (auto simp add: Let_def simp del: f64_add.simps)
qed

theorem seq_recurrence_witness:
  "Suc 0 < length [price_candle 10 20 25 5, price_candle 20 30 35 15]
   \<and> fst (CalculateHeikinAshi_seq NewHeikinAshi
            [price_candle 10 20 25 5, price_candle 20 30 35 15]) ! 0 = price_candle 15 15 25 5
   \<and> \<not> f64_eq (Fin 15) (Fin 0)
   \<and> PreviousHACandle (snd (CalculateHeikinAshi_seq NewHeikinAshi
        (take (Suc 0) [price_candle 10 20 25 5, price_candle 20 30 35 15]))) =
       price_candle 15 15 25 5
   \<and> Candle.Open (fst (CalculateHeikinAshi_seq NewHeikinAshi
            [price_candle 10 20 25 5, price_candle 20 30 35 15]) ! Suc 0) = Fin 15
   \<and> f64_div (f64_add (Fin 20) (Fin 30)) (Fin 2) = Fin 25"
proof -
  let ?cs = "[price_candle 10 20 25 5, price_candle 20 30 35 15]"
  let ?hs = "fst (CalculateHeikinAshi_seq NewHeikinAshi ?cs)"
  have len: "Suc 0 < length ?cs" by simp
  have ne: "\<not> f64_eq (Fin 15) (Fin 0)"
    by (simp add: f64_eq_def)
  have h0: "?hs ! 0 = price_candle 15 15 25 5"
    unfolding seq_10_20 by simp
  have pre: "\<not> (f64_eq (Candle.Open (?hs ! 0)) (Fin 0) \<and> f64_eq (Candle.Close (?hs ! 0)) (Fin 0))"
    unfolding h0 using ne by simp
  from seq_recurrence [of ?cs NewHeikinAshi]
  have a: "\<forall>i < length ?cs.
      PreviousHACandle (snd (CalculateHeikinAshi_seq NewHeikinAshi (take (Suc i) ?cs))) = ?hs ! i"
    and b: "\<forall>i. Suc i < length ?cs \<longrightarrow>
        \<not> (f64_eq (Candle.Open (?hs ! i)) (Fin 0) \<and> f64_eq (Candle.Close (?hs ! i)) (Fin 0)) \<longrightarrow>
        Candle.Open (?hs ! Suc i) =
          f64_div (f64_add (Candle.Open (?hs ! i)) (Candle.Close (?hs ! i))) (Fin 2)"
    by blast+
  from a len have a0:
    "PreviousHACandle (snd (CalculateHeikinAshi_seq NewHeikinAshi (take (Suc 0) ?cs))) = ?hs ! 0"
    by (metis Suc_lessD)
  from b len pre have
    "Candle.Open (?hs ! Suc 0) =
       f64_div (f64_add (Candle.Open (?hs ! 0)) (Candle.Close (?hs ! 0))) (Fin 2)"
    by blast
  then have b0: "Candle.Open (?hs ! Suc 0) = Fin 15"
    unfolding h0 by (simp add: f64_avg_15_15 del: f64_add.simps)
  have raw: "f64_div (f64_add (Fin 20) (Fin 30)) (Fin 2) = Fin 25"
    by (simp add: f64_eval)
  from len h0 ne a0 b0 raw show ?thesis
    by (simp only: simp_thms)
qed

text \<open>
  C9. After any call the stored candle is the one returned; its pair is empty and its
  volume zero, so it is the empty sentinel exactly when its open and its close equal
  zero; and then the next call seeds its open from the raw candle it is given.
\<close>

theorem sentinel_after_call:
  "(let h = fst (CalculateHeikinAshi ha c); ha' = snd (CalculateHeikinAshi ha c)
    in PreviousHACandle ha' = h
     \<and> Candle.Pair h = [] \<and> Candle.Volume h = Fin 0
     \<and> (Candle_Empty h \<longleftrightarrow> f64_eq (Candle.Open h) (Fin 0) \<and> f64_eq (Candle.Close h) (Fin 0))
     \<and> (f64_eq (Candle.Open h) (Fin 0) \<and> f64_eq (Candle.Close h) (Fin 0) \<longrightarrow>
          Candle.Open (fst (CalculateHeikinAshi ha' d)) =
            f64_div (f64_add (Candle.Open d) (Candle.Close d)) (Fin 2)))"
proof -
  have st: "snd (CalculateHeikinAshi ha c) = \<lparr>PreviousHACandle = fst (CalculateHeikinAshi ha c)\<rparr>"
    by (rule Calc_state)
  show ?thesis
    unfolding Let_def
    using Calc_Open [of "snd (CalculateHeikinAshi ha c)" d] Calc_Empty [of ha c]
    by (simp add: st Calc_Pair_Volume del: f64_add.simps)
qed

theorem sentinel_after_call_witness:
  "f64_eq (Candle.Open (fst (CalculateHeikinAshi NewHeikinAshi (price_candle 0 0 0 0)))) (Fin 0)
   \<and> f64_eq (Candle.Close (fst (CalculateHeikinAshi NewHeikinAshi (price_candle 0 0 0 0)))) (Fin 0)
   \<and> Candle.Open (fst (CalculateHeikinAshi
        (snd (CalculateHeikinAshi NewHeikinAshi (price_candle 0 0 0 0)))
        (price_candle 10 20 25 5))) = Fin 15"
proof -
  let ?h = "fst (CalculateHeikinAshi NewHeikinAshi (price_candle 0 0 0 0))"
  let ?ha = "snd (CalculateHeikinAshi NewHeikinAshi (price_candle 0 0 0 0))"
  have z: "?h = price_candle 0 0 0 0"
    by (simp add: Calc_fresh_0)
  have p: "f64_eq (Candle.Open ?h) (Fin 0)" "f64_eq (Candle.Close ?h) (Fin 0)"
    unfolding z by (simp_all add: f64_eq_zero_zero)
  from sentinel_after_call [of NewHeikinAshi "price_candle 0 0 0 0" "price_candle 10 20 25 5"]
  have "f64_eq (Candle.Open ?h) (Fin 0) \<and> f64_eq (Candle.Close ?h) (Fin 0) \<longrightarrow>
          Candle.Open (fst (CalculateHeikinAshi ?ha (price_candle 10 20 25 5))) =
            f64_div (f64_add (Candle.Open (price_candle 10 20 25 5))
              (Candle.Close (price_candle 10 20 25 5))) (Fin 2)"
    unfolding Let_def by blast
  with p have "Candle.Open (fst (CalculateHeikinAshi ?ha (price_candle 10 20 25 5))) =
            f64_div (f64_add (Candle.Open (price_candle 10 20 25 5))
              (Candle.Close (price_candle 10 20 25 5))) (Fin 2)"
    by blast
  then have "Candle.Open (fst (CalculateHeikinAshi ?ha (price_candle 10 20 25 5))) = Fin 15"
    by (simp add: f64_avg_10_20 del: f64_add.simps)
  with p show ?thesis by blast
qed

section \<open>Bounds checks and wrap-around\<close>

lemma bindE_Inr [simp]: "bindE (Inr x) f = f x"
  by (simp add: bindE_def)

lemma bindE_Inl [simp]: "bindE (Inl e) f = Inl e"
  by (simp add: bindE_def)

lemma index_nat [simp]: "i < length xs \<Longrightarrow> index xs (int i) = Inr (xs ! i)"
  by (simp add: index_def)

lemma store_nat [simp]: "i < length xs \<Longrightarrow> store xs (int i) v = Inr (xs[i := v])"
  by (simp add: store_def)

lemma int64_wrap_id: "- (2 ^ 63) \<le> x \<Longrightarrow> x < 2 ^ 63 \<Longrightarrow> int64_wrap x = x"
  by (simp add: int64_wrap_def)

section \<open>The order of candles\<close>

text \<open>
  The order on strings is the lexicographic one on their bytes, a proper prefix before
  the longer string, as Go compares strings.
\<close>

lemma string_less_bytewise:
  "(xs :: string) < ys \<longleftrightarrow> (xs, ys) \<in> lexord {(a, b). (of_char a :: nat) < of_char b}"
  by (simp add: list_less_def less_char_def)

lemma string_less_samples:
  "''BTC'' < ''BTCUSDT''" "''BTCUSDT'' < ''ETHUSDT''" "''Z'' < ''a''" "\<not> ''b'' < ''a''"
  by simp_all

text \<open>
  C8. \<^verbatim>\<open>c.Less(j)\<close> on two candles never panics. It is true when the time of \<open>c\<close> is
  before the time of \<open>j\<close>; for equal times, when \<open>c\<close> was updated before \<open>j\<close>; for equal
  times and updates, when the pair of \<open>c\<close> is lexicographically less than the pair of
  \<open>j\<close>; and false otherwise. For A (time 1, update 1, pair "a") and B (time 1, update 1,
  pair "b"), whatever their other fields, A is less than B and B is not less than A.
\<close>

theorem Less_orders_by_time_update_pair:
  "Candle_Less c (ItemCandle j) =
     Inr (Candle.Time c < Candle.Time j
          \<or> (Candle.Time c = Candle.Time j
              \<and> (UpdatedAt c < UpdatedAt j
                  \<or> (UpdatedAt c = UpdatedAt j \<and> Candle.Pair c < Candle.Pair j))))
   \<and> Candle_Less (c\<lparr>Candle.Time := 1, UpdatedAt := 1, Candle.Pair := ''a''\<rparr>)
        (ItemCandle (j\<lparr>Candle.Time := 1, UpdatedAt := 1, Candle.Pair := ''b''\<rparr>)) = Inr True
   \<and> Candle_Less (j\<lparr>Candle.Time := 1, UpdatedAt := 1, Candle.Pair := ''b''\<rparr>)
        (ItemCandle (c\<lparr>Candle.Time := 1, UpdatedAt := 1, Candle.Pair := ''a''\<rparr>)) = Inr False"
proof -
  have sub: "Time_Sub t u < 0 \<longleftrightarrow> t < u" "0 < Time_Sub t u \<longleftrightarrow> u < t" for t u
    by (simp_all add: Time_Sub_def Let_def)
  have gen: "Candle_Less c (ItemCandle j) =
     Inr (Candle.Time c < Candle.Time j
          \<or> (Candle.Time c = Candle.Time j
              \<and> (UpdatedAt c < UpdatedAt j
                  \<or> (UpdatedAt c = UpdatedAt j \<and> Candle.Pair c < Candle.Pair j))))" for c j
    by (auto simp add: Candle_Less_def Let_def sub)
  show ?thesis
    by (simp add: gen)
qed

section \<open>The price means\<close>

lemma HL2_loop_map:
  "\<forall>i \<in> set is. i < length (OHLC.High df) \<and> i < length (OHLC.Low df) \<Longrightarrow>
   HL2_loop df is acc =
     Inr (acc @ map (\<lambda>i. f64_div (f64_add (OHLC.High df ! i) (OHLC.Low df ! i)) (Fin 2)) is)"
  by (induction "is" arbitrary: acc) (simp_all del: f64_add.simps)

lemma HLC3_loop_map:
  "\<forall>i \<in> set is. i < length (OHLC.High df) \<and> i < length (OHLC.Low df)
      \<and> i < length (OHLC.Close df) \<Longrightarrow>
   HLC3_loop df is acc =
     Inr (acc @ map (\<lambda>i. f64_div (f64_add (f64_add (OHLC.High df ! i) (OHLC.Low df ! i))
                                    (OHLC.Close df ! i)) (Fin 3)) is)"
  by (induction "is" arbitrary: acc) (simp_all del: f64_add.simps)

lemma OHLC4_loop_map:
  "\<forall>i \<in> set is. i < length (OHLC.Open df) \<and> i < length (OHLC.High df)
      \<and> i < length (OHLC.Low df) \<and> i < length (OHLC.Close df) \<Longrightarrow>
   OHLC4_loop df is acc =
     Inr (acc @ map (\<lambda>i. f64_div (f64_add (f64_add (f64_add (OHLC.Open df ! i)
                 (OHLC.High df ! i)) (OHLC.Low df ! i)) (OHLC.Close df ! i)) (Fin 4)) is)"
  by (induction "is" arbitrary: acc) (simp_all del: f64_add.simps)

text \<open>
  C6. When the close, open, high and low columns have the same length \<open>L\<close>, the three
  methods return, without a panic, sequences of length \<open>L\<close> whose entry at every index
  \<open>i\<close> is \<open>(high + low) / 2\<close>, \<open>(high + low + close) / 3\<close> and
  \<open>(open + high + low + close) / 4\<close> of the prices at \<open>i\<close>, in float arithmetic, the sums
  taken from left to right.
\<close>

theorem price_means:
  assumes "length (OHLC.Close df) = L" "length (OHLC.Open df) = L"
    "length (OHLC.High df) = L" "length (OHLC.Low df) = L"
  shows "\<exists>hl2 hlc3 ohlc4.
      HL2 df = Inr hl2 \<and> HLC3 df = Inr hlc3 \<and> OHLC4 df = Inr ohlc4
      \<and> length hl2 = L \<and> length hlc3 = L \<and> length ohlc4 = L
      \<and> (\<forall>i < L.
            hl2 ! i = f64_div (f64_add (OHLC.High df ! i) (OHLC.Low df ! i)) (Fin 2)
          \<and> hlc3 ! i =
              f64_div (f64_add (f64_add (OHLC.High df ! i) (OHLC.Low df ! i))
                         (OHLC.Close df ! i)) (Fin 3)
          \<and> ohlc4 ! i =
              f64_div (f64_add (f64_add (f64_add (OHLC.Open df ! i) (OHLC.High df ! i))
                         (OHLC.Low df ! i)) (OHLC.Close df ! i)) (Fin 4))"
proof -
  have a: "HL2 df =
      Inr (map (\<lambda>i. f64_div (f64_add (OHLC.High df ! i) (OHLC.Low df ! i)) (Fin 2)) [0..<L])"
    unfolding HL2_def using assms by (subst HL2_loop_map) simp_all
  have b: "HLC3 df =
      Inr (map (\<lambda>i. f64_div (f64_add (f64_add (OHLC.High df ! i) (OHLC.Low df ! i))
                                    (OHLC.Close df ! i)) (Fin 3)) [0..<L])"
    unfolding HLC3_def using assms by (subst HLC3_loop_map) simp_all
  have c: "OHLC4 df =
      Inr (map (\<lambda>i. f64_div (f64_add (f64_add (f64_add (OHLC.Open df ! i)
                 (OHLC.High df ! i)) (OHLC.Low df ! i)) (OHLC.Close df ! i)) (Fin 4)) [0..<L])"
    unfolding OHLC4_def using assms by (subst OHLC4_loop_map) simp_all
  show ?thesis
    unfolding a b c by (simp del: f64_add.simps)
qed

theorem price_means_witness:
  "length (OHLC.Close two_series) = 2 \<and> length (OHLC.Open two_series) = 2
   \<and> length (OHLC.High two_series) = 2 \<and> length (OHLC.Low two_series) = 2
   \<and> (\<exists>hl2 hlc3 ohlc4.
        HL2 two_series = Inr hl2 \<and> HLC3 two_series = Inr hlc3 \<and> OHLC4 two_series = Inr ohlc4
        \<and> length hl2 = 2 \<and> length hlc3 = 2 \<and> length ohlc4 = 2
        \<and> hl2 ! 0 = f64_div (f64_add (Fin 25) (Fin 5)) (Fin 2)
        \<and> hlc3 ! 1 = f64_div (f64_add (f64_add (Fin 35) (Fin 15)) (Fin 30)) (Fin 3)
        \<and> ohlc4 ! 0 = Fin 15)"
proof -
  have l: "length (OHLC.Close two_series) = 2" "length (OHLC.Open two_series) = 2"
    "length (OHLC.High two_series) = 2" "length (OHLC.Low two_series) = 2"
    by (simp_all add: two_series_def)
  from price_means [OF l] obtain hl2 hlc3 ohlc4 where
    r: "HL2 two_series = Inr hl2" "HLC3 two_series = Inr hlc3" "OHLC4 two_series = Inr ohlc4"
      "length hl2 = 2" "length hlc3 = 2" "length ohlc4 = 2"
    and v: "\<forall>i < 2.
            hl2 ! i = f64_div (f64_add (OHLC.High two_series ! i) (OHLC.Low two_series ! i)) (Fin 2)
          \<and> hlc3 ! i =
              f64_div (f64_add (f64_add (OHLC.High two_series ! i) (OHLC.Low two_series ! i))
                         (OHLC.Close two_series ! i)) (Fin 3)
          \<and> ohlc4 ! i =
              f64_div (f64_add (f64_add (f64_add (OHLC.Open two_series ! i) (OHLC.High two_series ! i))
                         (OHLC.Low two_series ! i)) (OHLC.Close two_series ! i)) (Fin 4)"
    by blast
  from v have v0: "hl2 ! 0 = f64_div (f64_add (Fin 25) (Fin 5)) (Fin 2)"
    "ohlc4 ! 0 = f64_div (f64_add (f64_add (f64_add (Fin 10) (Fin 25)) (Fin 5)) (Fin 20)) (Fin 4)"
    by (simp_all add: two_series_def del: f64_add.simps)
  from v have v1: "hlc3 ! 1 = f64_div (f64_add (f64_add (Fin 35) (Fin 15)) (Fin 30)) (Fin 3)"
    by (simp add: two_series_def del: f64_add.simps)
  from l r v0 v1 show ?thesis
    by (simp add: f64_mean_10_25_5_20 del: f64_add.simps)
qed

section \<open>The last candle\<close>

lemma aligned_two_series: "aligned two_series"
  by (simp add: aligned_def two_series_def)

lemma OHLC_Candle_raw:
  assumes "aligned df" "i < length (OHLC.Time df)"
  shows "OHLC_Candle df (int i) = Inr (raw_candles df ! i)"
  using assms by (simp add: OHLC_Candle_def raw_candles_def candle_at_def aligned_def)

lemma raw_candles_two_series:
  "raw_candles two_series =
     [\<lparr>Candle.Pair = [], Candle.Time = 60, UpdatedAt = 0, Candle.Open = Fin 10,
            Candle.Close = Fin 20, Candle.Low = Fin 5, Candle.High = Fin 25,
            Candle.Volume = Fin 7, Complete = False, Candle.Metadata = Map.empty\<rparr>,
      \<lparr>Candle.Pair = [], Candle.Time = 120, UpdatedAt = 0, Candle.Open = Fin 20,
            Candle.Close = Fin 30, Candle.Low = Fin 15, Candle.High = Fin 35,
            Candle.Volume = Fin 9, Complete = False, Candle.Metadata = Map.empty\<rparr>]"
  by (simp add: raw_candles_def candle_at_def two_series_def upt_rec)

text \<open>
  C7. On a series that keeps the invariant and is not empty, \<^verbatim>\<open>Last(k)\<close> with
  \<open>0 \<le> k < len\<close> is \<^verbatim>\<open>Candle(len - 1 - k)\<close>, and \<^verbatim>\<open>Last()\<close> is \<^verbatim>\<open>Candle(len - 1)\<close>:
  the candle of that index, no panic. On a series with no close prices \<^verbatim>\<open>Last()\<close>
  returns the zero Candle, which is \<^verbatim>\<open>Empty()\<close>.
\<close>

theorem Last_is_Candle:
  "(aligned df \<and> OHLC.Close df \<noteq> [] \<and> 0 \<le> k \<and> k < int (length (OHLC.Close df)) \<longrightarrow>
      OHLC_Last df [k] = OHLC_Candle df (int (length (OHLC.Close df)) - 1 - k)
      \<and> OHLC_Last df [k] = Inr (raw_candles df ! nat (int (length (OHLC.Close df)) - 1 - k)))
   \<and> (aligned df \<and> OHLC.Close df \<noteq> [] \<longrightarrow>
      OHLC_Last df [] = OHLC_Candle df (int (length (OHLC.Close df)) - 1)
      \<and> OHLC_Last df [] = Inr (raw_candles df ! (length (OHLC.Close df) - 1)))
   \<and> (OHLC.Close df = [] \<longrightarrow> OHLC_Last df [] = Inr zero_Candle \<and> Candle_Empty zero_Candle)"
proof (intro conjI impI)
  assume a: "aligned df \<and> OHLC.Close df \<noteq> [] \<and> 0 \<le> k \<and> k < int (length (OHLC.Close df))"
  let ?n = "length (OHLC.Close df)"
  from a have n: "int ?n < 2 ^ 63" "0 < ?n" "length (OHLC.Time df) = ?n"
    by (auto simp add: aligned_def)
  from a n have "int64_wrap (int ?n - 1) = int ?n - 1"
    by (intro int64_wrap_id) simp_all
  moreover from a n have "int64_wrap (int ?n - 1 - k) = int ?n - 1 - k"
    by (intro int64_wrap_id) simp_all
  ultimately show 1: "OHLC_Last df [k] = OHLC_Candle df (int ?n - 1 - k)"
    using n by (simp add: OHLC_Last_def)
  from a n have "nat (int ?n - 1 - k) < length (OHLC.Time df)" by linarith
  with a have "OHLC_Candle df (int (nat (int ?n - 1 - k))) = Inr (raw_candles df ! nat (int ?n - 1 - k))"
    by (intro OHLC_Candle_raw) simp_all
  moreover from a have "int (nat (int ?n - 1 - k)) = int ?n - 1 - k" by simp
  ultimately show "OHLC_Last df [k] = Inr (raw_candles df ! nat (int ?n - 1 - k))"
    using 1 by simp
next
  assume a: "aligned df \<and> OHLC.Close df \<noteq> []"
  let ?n = "length (OHLC.Close df)"
  from a have n: "int ?n < 2 ^ 63" "0 < ?n" "length (OHLC.Time df) = ?n"
    by (auto simp add: aligned_def)
  from a n have "int64_wrap (int ?n - 1) = int ?n - 1"
    by (intro int64_wrap_id) simp_all
  then show 1: "OHLC_Last df [] = OHLC_Candle df (int ?n - 1)"
    using n by (simp add: OHLC_Last_def)
  from a n have "OHLC_Candle df (int (?n - 1)) = Inr (raw_candles df ! (?n - 1))"
    by (intro OHLC_Candle_raw) simp_all
  moreover from n have "int (?n - 1) = int ?n - 1" by linarith
  ultimately show "OHLC_Last df [] = Inr (raw_candles df ! (?n - 1))"
    using 1 by simp
next
  assume "OHLC.Close df = []"
  then show "OHLC_Last df [] = Inr zero_Candle" by (simp add: OHLC_Last_def)
next
  show "Candle_Empty zero_Candle" by (rule Empty_zero_Candle)
qed

theorem Last_is_Candle_witness:
  "aligned two_series \<and> OHLC.Close two_series \<noteq> [] \<and> (0::int) \<le> 1
   \<and> 1 < int (length (OHLC.Close two_series))
   \<and> OHLC_Last two_series [1] =
       Inr \<lparr>Candle.Pair = [], Candle.Time = 60, UpdatedAt = 0, Candle.Open = Fin 10,
            Candle.Close = Fin 20, Candle.Low = Fin 5, Candle.High = Fin 25,
            Candle.Volume = Fin 7, Complete = False, Candle.Metadata = Map.empty\<rparr>
   \<and> OHLC_Last two_series [] =
       Inr \<lparr>Candle.Pair = [], Candle.Time = 120, UpdatedAt = 0, Candle.Open = Fin 20,
            Candle.Close = Fin 30, Candle.Low = Fin 15, Candle.High = Fin 35,
            Candle.Volume = Fin 9, Complete = False, Candle.Metadata = Map.empty\<rparr>
   \<and> OHLC.Close no_series = [] \<and> OHLC_Last no_series [] = Inr zero_Candle"
proof -
  have h: "aligned two_series \<and> OHLC.Close two_series \<noteq> [] \<and> (0::int) \<le> 1
      \<and> 1 < int (length (OHLC.Close two_series))"
    by (simp add: aligned_two_series) (simp add: two_series_def)
  have e: "OHLC.Close no_series = []"
    by (simp add: no_series_def)
  have len: "length (OHLC.Close two_series) = 2"
    by (simp add: two_series_def)
  note raw = raw_candles_two_series
  from Last_is_Candle [of two_series 1] h
  have a: "OHLC_Last two_series [1] = Inr (raw_candles two_series ! nat (int (length (OHLC.Close two_series)) - 1 - 1))"
    and b: "OHLC_Last two_series [] = Inr (raw_candles two_series ! (length (OHLC.Close two_series) - 1))"
    by blast+
  from Last_is_Candle [of no_series 1] e
  have c: "OHLC_Last no_series [] = Inr zero_Candle"
    by blast
  from a b show ?thesis
    unfolding len raw using h e c by simp
qed

section \<open>Balances by asset\<close>

text \<open>
  The claim C4 as it is written fails in two ways. On an account that lists an asset
  twice, the loop goes on until both symbols are found, and a later entry of the asset
  replaces the one found before: the first BTC entry has 1 free, and the one returned has
  2. And when the two symbols are equal, the \<^verbatim>\<open>switch\<close> takes the asset case for every
  matching entry, so the quote slot stays the zero Balance although an entry has the
  symbol.
\<close>

theorem Balance_not_first_counterexample:
  "find (\<lambda>b. Asset b = ''BTC'') (Balances btc_twice) =
     Some \<lparr>Asset = ''BTC'', Free = Fin 1, Lock = Fin 0, Leverage = Fin 0\<rparr>
   \<and> fst (Account_Balance btc_twice ''BTC'' ''USDT'') =
       \<lparr>Asset = ''BTC'', Free = Fin 2, Lock = Fin 0, Leverage = Fin 0\<rparr>
   \<and> find (\<lambda>b. Asset b = ''BTC'') (Balances btc_eth) =
       Some \<lparr>Asset = ''BTC'', Free = Fin 1, Lock = Fin (1 / 2), Leverage = Fin 0\<rparr>
   \<and> snd (Account_Balance btc_eth ''BTC'' ''BTC'') = zero_Balance"
  by (simp add: Account_Balance_def btc_twice_def btc_eth_def)

lemma Balance_loop_absent:
  "assetTick \<notin> Asset ` set bs \<Longrightarrow>
     fst (Balance_loop assetTick quoteTick bs (ab, qb, sa, sq)) = ab"
  "quoteTick \<notin> Asset ` set bs \<Longrightarrow>
     snd (Balance_loop assetTick quoteTick bs (ab, qb, sa, sq)) = qb"
  by (induction bs arbitrary: ab qb sa sq) auto

lemma Balance_loop_asset_found:
  assumes "sa \<longrightarrow> Asset ab = assetTick \<and> ab \<in> S"
    and "sa \<or> assetTick \<in> Asset ` set bs"
    and "\<not> (sa \<and> sq)"
  shows "Asset (fst (Balance_loop assetTick quoteTick bs (ab, qb, sa, sq))) = assetTick
    \<and> fst (Balance_loop assetTick quoteTick bs (ab, qb, sa, sq)) \<in> S \<union> set bs"
  using assms
proof (induction bs arbitrary: ab qb sa sq S)
  case Nil
  then show ?case by simp
next
  case (Cons b bs)
  show ?case
  proof (cases "Asset b = assetTick")
    case True
    show ?thesis
    proof (cases sq)
      case True
      with \<open>Asset b = assetTick\<close> show ?thesis by simp
    next
      case False
      have "Asset (fst (Balance_loop assetTick quoteTick bs (b, qb, True, sq))) = assetTick
        \<and> fst (Balance_loop assetTick quoteTick bs (b, qb, True, sq)) \<in> {b} \<union> set bs"
        using True False by (intro Cons.IH) simp_all
      with True False show ?thesis by auto
    qed
  next
    case notA: False
    show ?thesis
    proof (cases "Asset b = quoteTick")
      case True
      show ?thesis
      proof (cases sa)
        case True
        with Cons.prems notA \<open>Asset b = quoteTick\<close> show ?thesis by simp
      next
        case False
        have "Asset (fst (Balance_loop assetTick quoteTick bs (ab, b, sa, True))) = assetTick
          \<and> fst (Balance_loop assetTick quoteTick bs (ab, b, sa, True)) \<in> S \<union> set bs"
          using Cons.prems notA False by (intro Cons.IH) auto
        with notA True False show ?thesis by auto
      qed
    next
      case False
      have "Asset (fst (Balance_loop assetTick quoteTick bs (ab, qb, sa, sq))) = assetTick
          \<and> fst (Balance_loop assetTick quoteTick bs (ab, qb, sa, sq)) \<in> S \<union> set bs"
        using Cons.prems notA by (intro Cons.IH) auto
      with notA False Cons.prems show ?thesis by auto
    qed
  qed
qed

lemma Balance_loop_quote_found:
  assumes "assetTick \<noteq> quoteTick"
    and "sq \<longrightarrow> Asset qb = quoteTick \<and> qb \<in> S"
    and "sq \<or> quoteTick \<in> Asset ` set bs"
    and "\<not> (sa \<and> sq)"
  shows "Asset (snd (Balance_loop assetTick quoteTick bs (ab, qb, sa, sq))) = quoteTick
    \<and> snd (Balance_loop assetTick quoteTick bs (ab, qb, sa, sq)) \<in> S \<union> set bs"
  using assms
proof (induction bs arbitrary: ab qb sa sq S)
  case Nil
  then show ?case by simp
next
  case (Cons b bs)
  show ?case
  proof (cases "Asset b = assetTick")
    case True
    with Cons.prems have notQ: "Asset b \<noteq> quoteTick" by simp
    show ?thesis
    proof (cases sq)
      case True
      with \<open>Asset b = assetTick\<close> Cons.prems show ?thesis by simp
    next
      case False
      have "Asset (snd (Balance_loop assetTick quoteTick bs (b, qb, True, sq))) = quoteTick
        \<and> snd (Balance_loop assetTick quoteTick bs (b, qb, True, sq)) \<in> S \<union> set bs"
        using Cons.prems True False notQ by (intro Cons.IH) auto
      with True False show ?thesis by auto
    qed
  next
    case notA: False
    show ?thesis
    proof (cases "Asset b = quoteTick")
      case True
      show ?thesis
      proof (cases sa)
        case True
        with notA \<open>Asset b = quoteTick\<close> show ?thesis by simp
      next
        case False
        have "Asset (snd (Balance_loop assetTick quoteTick bs (ab, b, sa, True))) = quoteTick
          \<and> snd (Balance_loop assetTick quoteTick bs (ab, b, sa, True)) \<in> {b} \<union> set bs"
          using Cons.prems(1) True False by (intro Cons.IH) simp_all
        with notA True False show ?thesis by auto
      qed
    next
      case False
      have "Asset (snd (Balance_loop assetTick quoteTick bs (ab, qb, sa, sq))) = quoteTick
          \<and> snd (Balance_loop assetTick quoteTick bs (ab, qb, sa, sq)) \<in> S \<union> set bs"
        using Cons.prems notA False by (intro Cons.IH) auto
      with notA False Cons.prems show ?thesis by auto
    qed
  qed
qed

lemma Balance_loop_distinct:
  assumes "assetTick \<noteq> quoteTick" "distinct (map Asset bs)" "\<not> (sa \<and> sq)"
    and "sa \<longrightarrow> assetTick \<notin> Asset ` set bs"
    and "sq \<longrightarrow> quoteTick \<notin> Asset ` set bs"
  shows "Balance_loop assetTick quoteTick bs (ab, qb, sa, sq) =
    (case find (\<lambda>b. Asset b = assetTick) bs of None \<Rightarrow> ab | Some b \<Rightarrow> b,
     case find (\<lambda>b. Asset b = quoteTick) bs of None \<Rightarrow> qb | Some b \<Rightarrow> b)"
  using assms
proof (induction bs arbitrary: ab qb sa sq)
  case Nil
  then show ?case by simp
next
  case (Cons b bs)
  have none: "x \<notin> Asset ` set bs \<Longrightarrow> find (\<lambda>b. Asset b = x) bs = None" for x
    by (auto simp add: find_None_iff)
  show ?case
  proof (cases "Asset b = assetTick")
    case True
    with Cons.prems have notQ: "Asset b \<noteq> quoteTick" and nob: "assetTick \<notin> Asset ` set bs"
      by auto
    show ?thesis
    proof (cases sq)
      case True
      with Cons.prems have "quoteTick \<notin> Asset ` set bs" by simp
      with True \<open>Asset b = assetTick\<close> notQ show ?thesis
        by (simp add: none)
    next
      case False
      have "Balance_loop assetTick quoteTick bs (b, qb, True, sq) =
        (case find (\<lambda>b. Asset b = assetTick) bs of None \<Rightarrow> b | Some b \<Rightarrow> b,
         case find (\<lambda>b. Asset b = quoteTick) bs of None \<Rightarrow> qb | Some b \<Rightarrow> b)"
        using Cons.prems False nob by (intro Cons.IH) auto
      with True False notQ nob show ?thesis
        by (simp add: none)
    qed
  next
    case notA: False
    show ?thesis
    proof (cases "Asset b = quoteTick")
      case True
      with Cons.prems have nob: "quoteTick \<notin> Asset ` set bs" by auto
      show ?thesis
      proof (cases sa)
        case True
        with Cons.prems have "assetTick \<notin> Asset ` set bs" by simp
        with True notA \<open>Asset b = quoteTick\<close> show ?thesis
          by (simp add: none)
      next
        case False
        have "Balance_loop assetTick quoteTick bs (ab, b, sa, True) =
          (case find (\<lambda>b. Asset b = assetTick) bs of None \<Rightarrow> ab | Some b \<Rightarrow> b,
           case find (\<lambda>b. Asset b = quoteTick) bs of None \<Rightarrow> b | Some b \<Rightarrow> b)"
          using Cons.prems False nob by (intro Cons.IH) auto
        with True False notA nob show ?thesis
          by (simp add: none)
      qed
    next
      case False
      have "Balance_loop assetTick quoteTick bs (ab, qb, sa, sq) =
          (case find (\<lambda>b. Asset b = assetTick) bs of None \<Rightarrow> ab | Some b \<Rightarrow> b,
           case find (\<lambda>b. Asset b = quoteTick) bs of None \<Rightarrow> qb | Some b \<Rightarrow> b)"
        using Cons.prems by (intro Cons.IH) auto
      with notA False Cons.prems show ?thesis by auto
    qed
  qed
qed

lemma last_with_Nil [simp]: "last_with d s [] = d"
  by (simp add: last_with_def)

lemma last_with_Cons:
  "last_with d s (b # bs) = last_with (if Asset b = s then b else d) s bs"
  by (simp add: last_with_def split: list.splits)

lemma last_with_filter:
  "last_with d s bs =
     (if filter (\<lambda>b. Asset b = s) bs = [] then d else last (filter (\<lambda>b. Asset b = s) bs))"
  by (simp add: last_with_def split: list.splits)

lemma last_with_snoc:
  "last_with d s (bs @ [b]) = (if Asset b = s then b else last_with d s bs)"
  by (simp add: last_with_filter)

lemma Balance_loop_same_symbol:
  "Balance_loop s s bs (ab, qb, sa, False) = (last_with ab s bs, qb)"
  by (induction bs arbitrary: ab sa) (simp_all add: last_with_Cons)

lemma Balance_loop_exact:
  assumes "assetTick \<noteq> quoteTick" "\<not> (sa \<and> sq)"
  shows "Balance_loop assetTick quoteTick bs (ab, qb, sa, sq) =
    (let pa = length (takeWhile (\<lambda>b. Asset b \<noteq> assetTick) bs);
         pq = length (takeWhile (\<lambda>b. Asset b \<noteq> quoteTick) bs);
         visited = take (Suc (if sa then pq else if sq then pa else max pa pq)) bs
     in (last_with ab assetTick visited, last_with qb quoteTick visited))"
  using assms
proof (induction bs arbitrary: ab qb sa sq)
  case Nil
  then show ?case by simp
next
  case (Cons b bs)
  show ?case
  proof (cases "Asset b = assetTick")
    case True
    with Cons.prems have notQ: "Asset b \<noteq> quoteTick" by simp
    show ?thesis
    proof (cases sq)
      case True
      with Cons.prems have "\<not> sa" by simp
      with True \<open>Asset b = assetTick\<close> notQ show ?thesis
        by (simp add: last_with_Cons)
    next
      case False
      have "Balance_loop assetTick quoteTick bs (b, qb, True, False) =
        (let pa = length (takeWhile (\<lambda>b. Asset b \<noteq> assetTick) bs);
             pq = length (takeWhile (\<lambda>b. Asset b \<noteq> quoteTick) bs);
             visited = take (Suc pq) bs
         in (last_with b assetTick visited, last_with qb quoteTick visited))"
        using Cons.IH [of True False b qb] Cons.prems(1) by simp
      with True False notQ show ?thesis
        by (simp add: Let_def last_with_Cons)
    qed
  next
    case notA: False
    show ?thesis
    proof (cases "Asset b = quoteTick")
      case True
      show ?thesis
      proof (cases sa)
        case True
        with Cons.prems have "\<not> sq" by simp
        with True notA \<open>Asset b = quoteTick\<close> show ?thesis
          by (simp add: last_with_Cons)
      next
        case False
        have "Balance_loop assetTick quoteTick bs (ab, b, False, True) =
          (let pa = length (takeWhile (\<lambda>b. Asset b \<noteq> assetTick) bs);
               pq = length (takeWhile (\<lambda>b. Asset b \<noteq> quoteTick) bs);
               visited = take (Suc pa) bs
           in (last_with ab assetTick visited, last_with b quoteTick visited))"
          using Cons.IH [of False True ab b] Cons.prems(1) by simp
        with True False notA show ?thesis
          by (simp add: Let_def last_with_Cons)
      qed
    next
      case False
      have "Balance_loop assetTick quoteTick bs (ab, qb, sa, sq) =
        (let pa = length (takeWhile (\<lambda>b. Asset b \<noteq> assetTick) bs);
             pq = length (takeWhile (\<lambda>b. Asset b \<noteq> quoteTick) bs);
             visited = take (Suc (if sa then pq else if sq then pa else max pa pq)) bs
         in (last_with ab assetTick visited, last_with qb quoteTick visited))"
        using Cons.IH [of sa sq ab qb] Cons.prems by simp
      with notA False Cons.prems show ?thesis
        by (auto simp add: Let_def last_with_Cons)
    qed
  qed
qed

lemma Account_Balance_exact:
  "Account_Balance a assetTick quoteTick =
     (last_with zero_Balance assetTick (scanned assetTick quoteTick (Balances a)),
      if assetTick = quoteTick then zero_Balance
      else last_with zero_Balance quoteTick (scanned assetTick quoteTick (Balances a)))"
proof (cases "assetTick = quoteTick")
  case True
  then show ?thesis
    by (simp add: Account_Balance_def scanned_def Balance_loop_same_symbol)
next
  case False
  then show ?thesis
    using Balance_loop_exact [of assetTick quoteTick False False "Balances a" zero_Balance zero_Balance]
    by (simp add: Account_Balance_def scanned_def Let_def)
qed

lemma scanned_quote_later:
  assumes "assetTick \<noteq> quoteTick" "Asset q = quoteTick"
    "quoteTick \<notin> Asset ` set pre" "assetTick \<in> Asset ` set pre"
  shows "scanned assetTick quoteTick (pre @ q # rest) = pre @ [q]"
proof -
  have "Asset b \<noteq> quoteTick" if "b \<in> set pre" for b
    using that assms(3) by auto
  then have pq: "takeWhile (\<lambda>b. Asset b \<noteq> quoteTick) (pre @ q # rest) = pre"
    using assms(2) by (simp add: takeWhile_append2)
  from assms(4) obtain x where x: "x \<in> set pre" "Asset x = assetTick" by auto
  then have "takeWhile (\<lambda>b. Asset b \<noteq> assetTick) (pre @ q # rest) =
      takeWhile (\<lambda>b. Asset b \<noteq> assetTick) pre"
    by (intro takeWhile_append1) auto
  then have pa: "length (takeWhile (\<lambda>b. Asset b \<noteq> assetTick) (pre @ q # rest)) \<le> length pre"
    by (simp add: length_takeWhile_le)
  from pa show ?thesis
    unfolding scanned_def pq using assms(1) by (simp add: max_def)
qed

lemma scanned_asset_later:
  assumes "assetTick \<noteq> quoteTick" "Asset x = assetTick"
    "assetTick \<notin> Asset ` set pre" "quoteTick \<in> Asset ` set pre"
  shows "scanned assetTick quoteTick (pre @ x # rest) = pre @ [x]"
proof -
  have "Asset b \<noteq> assetTick" if "b \<in> set pre" for b
    using that assms(3) by auto
  then have pa: "takeWhile (\<lambda>b. Asset b \<noteq> assetTick) (pre @ x # rest) = pre"
    using assms(2) by (simp add: takeWhile_append2)
  from assms(4) obtain y where y: "y \<in> set pre" "Asset y = quoteTick" by auto
  then have "takeWhile (\<lambda>b. Asset b \<noteq> quoteTick) (pre @ x # rest) =
      takeWhile (\<lambda>b. Asset b \<noteq> quoteTick) pre"
    by (intro takeWhile_append1) auto
  then have pq: "length (takeWhile (\<lambda>b. Asset b \<noteq> quoteTick) (pre @ x # rest)) \<le> length pre"
    by (simp add: length_takeWhile_le)
  from pq show ?thesis
    unfolding scanned_def pa using assms(1) by (simp add: max_def)
qed

lemma scanned_all:
  "assetTick \<notin> Asset ` set bs \<or> quoteTick \<notin> Asset ` set bs \<Longrightarrow>
     scanned assetTick quoteTick bs = bs"
proof -
  assume a: "assetTick \<notin> Asset ` set bs \<or> quoteTick \<notin> Asset ` set bs"
  have full: "s \<notin> Asset ` set bs \<Longrightarrow> length (takeWhile (\<lambda>b. Asset b \<noteq> s) bs) = length bs" for s
  proof -
    assume "s \<notin> Asset ` set bs"
    then have "takeWhile (\<lambda>b. Asset b \<noteq> s) bs = bs"
      by (auto simp add: takeWhile_eq_all_conv)
    then show ?thesis by (simp only:)
  qed
  from a show ?thesis
  proof
    assume "assetTick \<notin> Asset ` set bs"
    from full [OF this] show ?thesis by (simp add: scanned_def)
  next
    assume "quoteTick \<notin> Asset ` set bs"
    from full [OF this] show ?thesis by (simp add: scanned_def)
  qed
qed

text \<open>
  C4 (amended). The scan visits the entries up to the first one by which both symbols
  have occurred (all of them when the symbols are equal or one is absent), and each slot
  is the last visited entry whose asset is the slot's symbol, the zero Balance when there
  is none; with equal symbols the quote slot is the zero Balance. So, for two different
  symbols that both occur: when the first entry of the quote symbol comes after an entry
  of the asset symbol, the result is that first quote entry and the last asset entry
  before it, whatever follows; and the same with the symbols exchanged. When one symbol
  is absent, the other slot is the last entry of its symbol in the whole list. A symbol
  that no entry holds gets the zero Balance, and nothing fails; a symbol that some entry
  holds gets an entry with that asset. When no asset is listed twice and the symbols
  differ, each slot is the first entry whose asset is its symbol.
\<close>

theorem Balance_lookup:
  "Account_Balance a assetTick quoteTick =
     (last_with zero_Balance assetTick (scanned assetTick quoteTick (Balances a)),
      if assetTick = quoteTick then zero_Balance
      else last_with zero_Balance quoteTick (scanned assetTick quoteTick (Balances a)))
   \<and> (assetTick = quoteTick \<longrightarrow>
      Account_Balance a assetTick quoteTick =
        (last_with zero_Balance assetTick (Balances a), zero_Balance))
   \<and> (assetTick \<noteq> quoteTick \<and> Balances a = pre @ q # rest \<and> Asset q = quoteTick
        \<and> quoteTick \<notin> Asset ` set pre \<and> assetTick \<in> Asset ` set pre \<longrightarrow>
      Account_Balance a assetTick quoteTick = (last_with zero_Balance assetTick pre, q))
   \<and> (assetTick \<noteq> quoteTick \<and> Balances a = pre @ q # rest \<and> Asset q = assetTick
        \<and> assetTick \<notin> Asset ` set pre \<and> quoteTick \<in> Asset ` set pre \<longrightarrow>
      Account_Balance a assetTick quoteTick = (q, last_with zero_Balance quoteTick pre))
   \<and> (quoteTick \<notin> Asset ` set (Balances a) \<longrightarrow>
      fst (Account_Balance a assetTick quoteTick) =
        last_with zero_Balance assetTick (Balances a))
   \<and> (assetTick \<noteq> quoteTick \<and> assetTick \<notin> Asset ` set (Balances a) \<longrightarrow>
      snd (Account_Balance a assetTick quoteTick) =
        last_with zero_Balance quoteTick (Balances a))
   \<and> (assetTick \<notin> Asset ` set (Balances a) \<longrightarrow>
      fst (Account_Balance a assetTick quoteTick) = zero_Balance)
   \<and> (quoteTick \<notin> Asset ` set (Balances a) \<longrightarrow>
      snd (Account_Balance a assetTick quoteTick) = zero_Balance)
   \<and> (assetTick \<in> Asset ` set (Balances a) \<longrightarrow>
      fst (Account_Balance a assetTick quoteTick) \<in> set (Balances a)
      \<and> Asset (fst (Account_Balance a assetTick quoteTick)) = assetTick)
   \<and> (assetTick \<noteq> quoteTick \<and> quoteTick \<in> Asset ` set (Balances a) \<longrightarrow>
      snd (Account_Balance a assetTick quoteTick) \<in> set (Balances a)
      \<and> Asset (snd (Account_Balance a assetTick quoteTick)) = quoteTick)
   \<and> (assetTick \<noteq> quoteTick \<and> distinct (map Asset (Balances a)) \<longrightarrow>
      Account_Balance a assetTick quoteTick =
        (case find (\<lambda>b. Asset b = assetTick) (Balances a) of
           None \<Rightarrow> zero_Balance | Some b \<Rightarrow> b,
         case find (\<lambda>b. Asset b = quoteTick) (Balances a) of
           None \<Rightarrow> zero_Balance | Some b \<Rightarrow> b))"
proof (intro conjI impI)
  show "Account_Balance a assetTick quoteTick =
     (last_with zero_Balance assetTick (scanned assetTick quoteTick (Balances a)),
      if assetTick = quoteTick then zero_Balance
      else last_with zero_Balance quoteTick (scanned assetTick quoteTick (Balances a)))"
    by (rule Account_Balance_exact)
next
  assume "assetTick = quoteTick"
  then show "Account_Balance a assetTick quoteTick =
        (last_with zero_Balance assetTick (Balances a), zero_Balance)"
    by (simp add: Account_Balance_exact scanned_def)
next
  assume h: "assetTick \<noteq> quoteTick \<and> Balances a = pre @ q # rest \<and> Asset q = quoteTick
        \<and> quoteTick \<notin> Asset ` set pre \<and> assetTick \<in> Asset ` set pre"
  then have "scanned assetTick quoteTick (Balances a) = pre @ [q]"
    using scanned_quote_later [of assetTick quoteTick q pre rest] by simp
  with h show "Account_Balance a assetTick quoteTick = (last_with zero_Balance assetTick pre, q)"
    by (auto simp add: Account_Balance_exact last_with_snoc)
next
  assume h: "assetTick \<noteq> quoteTick \<and> Balances a = pre @ q # rest \<and> Asset q = assetTick
        \<and> assetTick \<notin> Asset ` set pre \<and> quoteTick \<in> Asset ` set pre"
  then have "scanned assetTick quoteTick (Balances a) = pre @ [q]"
    using scanned_asset_later [of assetTick quoteTick q pre rest] by simp
  with h show "Account_Balance a assetTick quoteTick = (q, last_with zero_Balance quoteTick pre)"
    by (auto simp add: Account_Balance_exact last_with_snoc)
next
  assume "quoteTick \<notin> Asset ` set (Balances a)"
  then have "scanned assetTick quoteTick (Balances a) = Balances a"
    by (simp add: scanned_all)
  then show "fst (Account_Balance a assetTick quoteTick) =
        last_with zero_Balance assetTick (Balances a)"
    by (simp add: Account_Balance_exact)
next
  assume h: "assetTick \<noteq> quoteTick \<and> assetTick \<notin> Asset ` set (Balances a)"
  then have "scanned assetTick quoteTick (Balances a) = Balances a"
    by (simp add: scanned_all)
  with h show "snd (Account_Balance a assetTick quoteTick) =
        last_with zero_Balance quoteTick (Balances a)"
    by (simp add: Account_Balance_exact)
next
  assume "assetTick \<notin> Asset ` set (Balances a)"
  then show "fst (Account_Balance a assetTick quoteTick) = zero_Balance"
    by (simp add: Account_Balance_def Balance_loop_absent)
next
  assume "quoteTick \<notin> Asset ` set (Balances a)"
  then show "snd (Account_Balance a assetTick quoteTick) = zero_Balance"
    by (simp add: Account_Balance_def Balance_loop_absent)
next
  assume "assetTick \<in> Asset ` set (Balances a)"
  then have "Asset (fst (Balance_loop assetTick quoteTick (Balances a)
        (zero_Balance, zero_Balance, False, False))) = assetTick
    \<and> fst (Balance_loop assetTick quoteTick (Balances a)
        (zero_Balance, zero_Balance, False, False)) \<in> {} \<union> set (Balances a)"
    by (intro Balance_loop_asset_found) simp_all
  then show "fst (Account_Balance a assetTick quoteTick) \<in> set (Balances a)"
    and "Asset (fst (Account_Balance a assetTick quoteTick)) = assetTick"
    by (simp_all add: Account_Balance_def)
next
  assume "assetTick \<noteq> quoteTick \<and> quoteTick \<in> Asset ` set (Balances a)"
  then have "Asset (snd (Balance_loop assetTick quoteTick (Balances a)
        (zero_Balance, zero_Balance, False, False))) = quoteTick
    \<and> snd (Balance_loop assetTick quoteTick (Balances a)
        (zero_Balance, zero_Balance, False, False)) \<in> {} \<union> set (Balances a)"
    by (intro Balance_loop_quote_found) simp_all
  then show "snd (Account_Balance a assetTick quoteTick) \<in> set (Balances a)"
    and "Asset (snd (Account_Balance a assetTick quoteTick)) = quoteTick"
    by (simp_all add: Account_Balance_def)
next
  assume "assetTick \<noteq> quoteTick \<and> distinct (map Asset (Balances a))"
  then show "Account_Balance a assetTick quoteTick =
        (case find (\<lambda>b. Asset b = assetTick) (Balances a) of
           None \<Rightarrow> zero_Balance | Some b \<Rightarrow> b,
         case find (\<lambda>b. Asset b = quoteTick) (Balances a) of
           None \<Rightarrow> zero_Balance | Some b \<Rightarrow> b)"
    unfolding Account_Balance_def by (intro Balance_loop_distinct) simp_all
qed

theorem Balance_lookup_witness:
  "Account_Balance btc_eth ''BTC'' ''BTC'' =
     (\<lparr>Asset = ''BTC'', Free = Fin 1, Lock = Fin (1 / 2), Leverage = Fin 0\<rparr>, zero_Balance)
   \<and> Account_Balance btc_usdt_repeated ''BTC'' ''USDT'' =
       (\<lparr>Asset = ''BTC'', Free = Fin 2, Lock = Fin 0, Leverage = Fin 0\<rparr>,
        \<lparr>Asset = ''USDT'', Free = Fin 5, Lock = Fin 0, Leverage = Fin 0\<rparr>)
   \<and> Account_Balance btc_usdt_repeated ''USDT'' ''BTC'' =
       (\<lparr>Asset = ''USDT'', Free = Fin 5, Lock = Fin 0, Leverage = Fin 0\<rparr>,
        \<lparr>Asset = ''BTC'', Free = Fin 2, Lock = Fin 0, Leverage = Fin 0\<rparr>)
   \<and> fst (Account_Balance btc_twice ''BTC'' ''USDT'') =
       \<lparr>Asset = ''BTC'', Free = Fin 2, Lock = Fin 0, Leverage = Fin 0\<rparr>
   \<and> snd (Account_Balance btc_eth ''BNB'' ''ETH'') =
       \<lparr>Asset = ''ETH'', Free = Fin 2, Lock = Fin 0, Leverage = Fin 0\<rparr>
   \<and> fst (Account_Balance btc_eth ''BNB'' ''ETH'') = zero_Balance
   \<and> snd (Account_Balance btc_eth ''BTC'' ''USDT'') = zero_Balance
   \<and> fst (Account_Balance btc_eth ''BTC'' ''USDT'') \<in> set (Balances btc_eth)
   \<and> Asset (fst (Account_Balance btc_eth ''BTC'' ''USDT'')) = ''BTC''
   \<and> snd (Account_Balance btc_eth ''BNB'' ''ETH'') \<in> set (Balances btc_eth)
   \<and> Asset (snd (Account_Balance btc_eth ''BNB'' ''ETH'')) = ''ETH''
   \<and> distinct (map Asset (Balances btc_eth))
   \<and> Account_Balance btc_eth ''BTC'' ''USDT'' =
       (\<lparr>Asset = ''BTC'', Free = Fin 1, Lock = Fin (1 / 2), Leverage = Fin 0\<rparr>, zero_Balance)"
proof -
  let ?btc = "\<lparr>Asset = ''BTC'', Free = Fin 1, Lock = Fin (1 / 2), Leverage = Fin 0\<rparr>"
  let ?eth = "\<lparr>Asset = ''ETH'', Free = Fin 2, Lock = Fin 0, Leverage = Fin 0\<rparr>"
  let ?b1 = "\<lparr>Asset = ''BTC'', Free = Fin 1, Lock = Fin 0, Leverage = Fin 0\<rparr>"
  let ?b2 = "\<lparr>Asset = ''BTC'', Free = Fin 2, Lock = Fin 0, Leverage = Fin 0\<rparr>"
  let ?b3 = "\<lparr>Asset = ''BTC'', Free = Fin 3, Lock = Fin 0, Leverage = Fin 0\<rparr>"
  let ?u5 = "\<lparr>Asset = ''USDT'', Free = Fin 5, Lock = Fin 0, Leverage = Fin 0\<rparr>"
  let ?u6 = "\<lparr>Asset = ''USDT'', Free = Fin 6, Lock = Fin 0, Leverage = Fin 0\<rparr>"
  note same = Balance_lookup [where a = btc_eth and assetTick = "''BTC''"
      and quoteTick = "''BTC''" and pre = "[]" and q = ?btc and rest = "[]"]
  note rep1 = Balance_lookup [where a = btc_usdt_repeated and assetTick = "''BTC''"
      and quoteTick = "''USDT''" and pre = "[?b1, ?b2]" and q = ?u5 and rest = "[?b3, ?u6]"]
  note rep2 = Balance_lookup [where a = btc_usdt_repeated and assetTick = "''USDT''"
      and quoteTick = "''BTC''" and pre = "[?b1, ?b2]" and q = ?u5 and rest = "[?b3, ?u6]"]
  note twice = Balance_lookup [where a = btc_twice and assetTick = "''BTC''"
      and quoteTick = "''USDT''" and pre = "[]" and q = ?b1 and rest = "[]"]
  note bnb = Balance_lookup [where a = btc_eth and assetTick = "''BNB''"
      and quoteTick = "''ETH''" and pre = "[]" and q = ?btc and rest = "[]"]
  note usdt = Balance_lookup [where a = btc_eth and assetTick = "''BTC''"
      and quoteTick = "''USDT''" and pre = "[]" and q = ?btc and rest = "[]"]
  have lw: "last_with zero_Balance ''BTC'' (Balances btc_eth) = ?btc"
    "last_with zero_Balance ''BTC'' [?b1, ?b2] = ?b2"
    "last_with zero_Balance ''BTC'' (Balances btc_twice) = ?b2"
    "last_with zero_Balance ''ETH'' (Balances btc_eth) = ?eth"
    by (simp_all add: last_with_def btc_eth_def btc_twice_def)
  have fd: "find (\<lambda>b. Asset b = ''BTC'') (Balances btc_eth) = Some ?btc"
    "find (\<lambda>b. Asset b = ''USDT'') (Balances btc_eth) = None"
    by (simp_all add: btc_eth_def)
  have h_rep1: "''BTC'' \<noteq> ''USDT'' \<and> Balances btc_usdt_repeated = [?b1, ?b2] @ ?u5 # [?b3, ?u6]
      \<and> Asset ?u5 = ''USDT'' \<and> ''USDT'' \<notin> Asset ` set [?b1, ?b2]
      \<and> ''BTC'' \<in> Asset ` set [?b1, ?b2]"
    by (simp add: btc_usdt_repeated_def)
  have h_rep2: "''USDT'' \<noteq> ''BTC'' \<and> Balances btc_usdt_repeated = [?b1, ?b2] @ ?u5 # [?b3, ?u6]
      \<and> Asset ?u5 = ''USDT'' \<and> ''USDT'' \<notin> Asset ` set [?b1, ?b2]
      \<and> ''BTC'' \<in> Asset ` set [?b1, ?b2]"
    by (simp add: btc_usdt_repeated_def)
  have h_twice: "''USDT'' \<notin> Asset ` set (Balances btc_twice)"
    by (simp add: btc_twice_def)
  have h_bnb: "''BNB'' \<noteq> ''ETH'' \<and> ''BNB'' \<notin> Asset ` set (Balances btc_eth)"
    "''BNB'' \<notin> Asset ` set (Balances btc_eth)"
    "''BNB'' \<noteq> ''ETH'' \<and> ''ETH'' \<in> Asset ` set (Balances btc_eth)"
    by (simp_all add: btc_eth_def)
  have h_usdt: "''USDT'' \<notin> Asset ` set (Balances btc_eth)"
    "''BTC'' \<in> Asset ` set (Balances btc_eth)"
    "''BTC'' \<noteq> ''USDT'' \<and> distinct (map Asset (Balances btc_eth))"
    by (simp_all add: btc_eth_def)
  from same have 1: "Account_Balance btc_eth ''BTC'' ''BTC'' = (?btc, zero_Balance)"
    unfolding lw by blast
  from rep1 h_rep1 have 2: "Account_Balance btc_usdt_repeated ''BTC'' ''USDT'' = (?b2, ?u5)"
    unfolding lw by blast
  from rep2 h_rep2 have
    "Account_Balance btc_usdt_repeated ''USDT'' ''BTC'' = (?u5, last_with zero_Balance ''BTC'' [?b1, ?b2])"
    by blast
  then have 3: "Account_Balance btc_usdt_repeated ''USDT'' ''BTC'' = (?u5, ?b2)"
    unfolding lw .
  from twice h_twice have 4: "fst (Account_Balance btc_twice ''BTC'' ''USDT'') = ?b2"
    unfolding lw by blast
  from bnb h_bnb(1) have 5: "snd (Account_Balance btc_eth ''BNB'' ''ETH'') = ?eth"
    unfolding lw by blast
  from bnb h_bnb(2) have 6: "fst (Account_Balance btc_eth ''BNB'' ''ETH'') = zero_Balance"
    by blast
  from usdt h_usdt(1) have 7: "snd (Account_Balance btc_eth ''BTC'' ''USDT'') = zero_Balance"
    by blast
  from usdt h_usdt(2) have 8: "fst (Account_Balance btc_eth ''BTC'' ''USDT'') \<in> set (Balances btc_eth)"
    "Asset (fst (Account_Balance btc_eth ''BTC'' ''USDT'')) = ''BTC''"
    by blast+
  from bnb h_bnb(3) have 9: "snd (Account_Balance btc_eth ''BNB'' ''ETH'') \<in> set (Balances btc_eth)"
    "Asset (snd (Account_Balance btc_eth ''BNB'' ''ETH'')) = ''ETH''"
    by blast+
  from usdt h_usdt(3) have "Account_Balance btc_eth ''BTC'' ''USDT'' =
        (case find (\<lambda>b. Asset b = ''BTC'') (Balances btc_eth) of
           None \<Rightarrow> zero_Balance | Some b \<Rightarrow> b,
         case find (\<lambda>b. Asset b = ''USDT'') (Balances btc_eth) of
           None \<Rightarrow> zero_Balance | Some b \<Rightarrow> b)"
    by blast
  then have 10: "Account_Balance btc_eth ''BTC'' ''USDT'' = (?btc, zero_Balance)"
    unfolding fd by simp
  from h_usdt(3) have d: "distinct (map Asset (Balances btc_eth))" ..
  from 1 2 3 4 5 6 7 8 9 d 10 show ?thesis
    by (intro conjI)
qed

section \<open>Sampling a data frame\<close>

text \<open>
  The claim C5 as it is written fails for a negative \<open>n\<close>: the length is not \<open>\<le> n\<close>,
  the start index lies beyond the end of the columns, and the first slice expression
  panics.
\<close>

theorem Sample_negative_counterexample:
  "\<not> int (length (OHLC.Time two_frame)) \<le> - 1
   \<and> Sample two_frame (- 1) = Inl SliceBoundsOutOfRange"
  by (simp add: Sample_def two_frame_def two_series_def OHLC.extend_def Dataframe.fields_def
      int64_wrap_def slice_from_def Let_def)

text \<open>
  C5 (amended). When the length of the series is \<open>\<le> n\<close>, \<^verbatim>\<open>Sample(n)\<close> returns the data
  frame as it is. Otherwise, for \<open>n \<ge> 0\<close> and a data frame that keeps the invariant, it
  returns the data frame with the close, open, low, high, volume and time columns cut to
  their last \<open>n\<close> entries (entry \<open>i\<close> of each is entry \<open>len - n + i\<close> of the original) and
  every other field as it was: the metadata map is the same map, its series not cut.
\<close>

theorem Sample_window:
  "(int (length (OHLC.Time df)) \<le> n \<and> n < 2 ^ 63 \<longrightarrow> Sample df n = Inr df)
   \<and> (aligned df \<and> 0 \<le> n \<and> n < int (length (OHLC.Time df)) \<longrightarrow>
        (let k = length (OHLC.Time df) - nat n;
             sample =
               df\<lparr>OHLC.Close := drop k (OHLC.Close df), OHLC.Open := drop k (OHLC.Open df),
                  OHLC.Low := drop k (OHLC.Low df), OHLC.High := drop k (OHLC.High df),
                  OHLC.Volume := drop k (OHLC.Volume df), OHLC.Time := drop k (OHLC.Time df)\<rparr>
         in Sample df n = Inr sample
          \<and> length (OHLC.Close sample) = nat n \<and> length (OHLC.Open sample) = nat n
          \<and> length (OHLC.High sample) = nat n \<and> length (OHLC.Low sample) = nat n
          \<and> length (OHLC.Volume sample) = nat n \<and> length (OHLC.Time sample) = nat n
          \<and> (\<forall>i < nat n.
                OHLC.Close sample ! i = OHLC.Close df ! (k + i)
              \<and> OHLC.Open sample ! i = OHLC.Open df ! (k + i)
              \<and> OHLC.High sample ! i = OHLC.High df ! (k + i)
              \<and> OHLC.Low sample ! i = OHLC.Low df ! (k + i)
              \<and> OHLC.Volume sample ! i = OHLC.Volume df ! (k + i)
              \<and> OHLC.Time sample ! i = OHLC.Time df ! (k + i))
          \<and> Dataframe.Metadata sample = Dataframe.Metadata df))"
proof (intro conjI impI)
  assume a: "int (length (OHLC.Time df)) \<le> n \<and> n < 2 ^ 63"
  then have "- (2 ^ 63) \<le> int (length (OHLC.Time df)) - n" "int (length (OHLC.Time df)) - n < 2 ^ 63"
    by linarith+
  then have "int64_wrap (int (length (OHLC.Time df)) - n) = int (length (OHLC.Time df)) - n"
    by (rule int64_wrap_id)
  with a show "Sample df n = Inr df"
    by (simp add: Sample_def Let_def)
next
  assume a: "aligned df \<and> 0 \<le> n \<and> n < int (length (OHLC.Time df))"
  let ?len = "length (OHLC.Time df)"
  let ?k = "?len - nat n"
  from a have len: "length (OHLC.Close df) = ?len" "length (OHLC.Open df) = ?len"
    "length (OHLC.High df) = ?len" "length (OHLC.Low df) = ?len"
    "length (OHLC.Volume df) = ?len" "int ?len < 2 ^ 63"
    by (simp_all add: aligned_def)
  from a len have "- (2 ^ 63) \<le> int ?len - n" "int ?len - n < 2 ^ 63"
    by linarith+
  then have w: "int64_wrap (int ?len - n) = int ?len - n"
    by (rule int64_wrap_id)
  from a have k: "nat (int ?len - n) = ?k" "0 < int ?len - n" "int ?len - n \<le> int ?len"
    by linarith+
  have sl: "length xs = ?len \<Longrightarrow> slice_from xs (int ?len - n) = Inr (drop ?k xs)" for xs :: "'b list"
    using k by (simp add: slice_from_def)
  have "Sample df n =
      Inr (df\<lparr>OHLC.Close := drop ?k (OHLC.Close df), OHLC.Open := drop ?k (OHLC.Open df),
                  OHLC.Low := drop ?k (OHLC.Low df), OHLC.High := drop ?k (OHLC.High df),
                  OHLC.Volume := drop ?k (OHLC.Volume df), OHLC.Time := drop ?k (OHLC.Time df)\<rparr>)"
    using k(2) by (simp add: Sample_def Let_def w sl len)
  moreover from a have "?len - ?k = nat n" by linarith
  moreover from a have "?k + i \<le> ?len" if "i < nat n" for i using that by linarith
  ultimately show "let k = length (OHLC.Time df) - nat n;
             sample =
               df\<lparr>OHLC.Close := drop k (OHLC.Close df), OHLC.Open := drop k (OHLC.Open df),
                  OHLC.Low := drop k (OHLC.Low df), OHLC.High := drop k (OHLC.High df),
                  OHLC.Volume := drop k (OHLC.Volume df), OHLC.Time := drop k (OHLC.Time df)\<rparr>
         in Sample df n = Inr sample
          \<and> length (OHLC.Close sample) = nat n \<and> length (OHLC.Open sample) = nat n
          \<and> length (OHLC.High sample) = nat n \<and> length (OHLC.Low sample) = nat n
          \<and> length (OHLC.Volume sample) = nat n \<and> length (OHLC.Time sample) = nat n
          \<and> (\<forall>i < nat n.
                OHLC.Close sample ! i = OHLC.Close df ! (k + i)
              \<and> OHLC.Open sample ! i = OHLC.Open df ! (k + i)
              \<and> OHLC.High sample ! i = OHLC.High df ! (k + i)
              \<and> OHLC.Low sample ! i = OHLC.Low df ! (k + i)
              \<and> OHLC.Volume sample ! i = OHLC.Volume df ! (k + i)
              \<and> OHLC.Time sample ! i = OHLC.Time df ! (k + i))
          \<and> Dataframe.Metadata sample = Dataframe.Metadata df"
    by (simp add: Let_def len)
qed

lemma aligned_two_frame: "aligned two_frame"
  by (simp add: aligned_def two_frame_def two_series_def OHLC.extend_def)

theorem Sample_window_witness:
  "int (length (OHLC.Time two_frame)) \<le> 2 \<and> (2::int) < 2 ^ 63
   \<and> Sample two_frame 2 = Inr two_frame
   \<and> aligned two_frame \<and> (0::int) \<le> 1 \<and> 1 < int (length (OHLC.Time two_frame))
   \<and> Sample two_frame 1 =
       Inr (two_frame\<lparr>OHLC.Close := [Fin 30], OHLC.Open := [Fin 20], OHLC.Low := [Fin 15],
              OHLC.High := [Fin 35], OHLC.Volume := [Fin 9], OHLC.Time := [120]\<rparr>)"
proof -
  have len: "length (OHLC.Time two_frame) = 2"
    by (simp add: two_frame_def two_series_def OHLC.extend_def)
  have h1: "int (length (OHLC.Time two_frame)) \<le> 2 \<and> (2::int) < 2 ^ 63"
    by (simp add: len)
  have h2: "aligned two_frame \<and> (0::int) \<le> 1 \<and> 1 < int (length (OHLC.Time two_frame))"
    by (simp add: len aligned_two_frame)
  have cols: "OHLC.Close two_frame = [Fin 20, Fin 30]" "OHLC.Open two_frame = [Fin 10, Fin 20]"
    "OHLC.High two_frame = [Fin 25, Fin 35]" "OHLC.Low two_frame = [Fin 5, Fin 15]"
    "OHLC.Volume two_frame = [Fin 7, Fin 9]" "OHLC.Time two_frame = [60, 120]"
    by (simp_all add: two_frame_def two_series_def OHLC.extend_def)
  from Sample_window [of two_frame 2, THEN conjunct1, THEN mp, OF h1]
  have a: "Sample two_frame 2 = Inr two_frame" .
  note w = Sample_window [of two_frame 1, unfolded Let_def, THEN conjunct2, THEN mp, OF h2,
      THEN conjunct1]
  from w have b: "Sample two_frame 1 =
       Inr (two_frame\<lparr>OHLC.Close := [Fin 30], OHLC.Open := [Fin 20], OHLC.Low := [Fin 15],
              OHLC.High := [Fin 35], OHLC.Volume := [Fin 9], OHLC.Time := [120]\<rparr>)"
    unfolding len by (simp add: cols)
  from h1 h2 a b show ?thesis by (simp only: simp_thms)
qed

section \<open>The Heikin Ashi transform of a series\<close>

lemma Candle_ToHeikinAshi_keeps:
  "Candle.Volume (fst (Candle_ToHeikinAshi c ha)) = Candle.Volume c"
  "Candle.Time (fst (Candle_ToHeikinAshi c ha)) = Candle.Time c"
  by (simp_all add: Candle_ToHeikinAshi_def case_prod_beta)

lemma smooth_in_order_length [simp]: "length (smooth_in_order ha cs) = length cs"
  by (induction cs arbitrary: ha) (simp_all add: case_prod_beta)

lemma smooth_in_order_Cons:
  "smooth_in_order ha (c # cs) =
     fst (Candle_ToHeikinAshi c ha) # smooth_in_order (snd (Candle_ToHeikinAshi c ha)) cs"
  by (simp add: case_prod_beta)

lemma smooth_in_order_Volume:
  "map Candle.Volume (smooth_in_order ha cs) = map Candle.Volume cs"
proof (induction cs arbitrary: ha)
  case Nil
  show ?case by simp
next
  case (Cons c cs)
  show ?case
    unfolding smooth_in_order_Cons list.map Cons.IH
    by (simp only: Candle_ToHeikinAshi_keeps)
qed

lemma smooth_in_order_Time:
  "map Candle.Time (smooth_in_order ha cs) = map Candle.Time cs"
proof (induction cs arbitrary: ha)
  case Nil
  show ?case by simp
next
  case (Cons c cs)
  show ?case
    unfolding smooth_in_order_Cons list.map Cons.IH
    by (simp only: Candle_ToHeikinAshi_keeps)
qed

lemma raw_candles_Volume:
  "length (OHLC.Volume df) = length (OHLC.Time df) \<Longrightarrow>
     map Candle.Volume (raw_candles df) = OHLC.Volume df"
  by (rule nth_equalityI) (simp_all add: raw_candles_def candle_at_def)

lemma ToHeikinAshi_body_eq:
  assumes "i < n"
    and "length cl = n" "length op = n" "length hi = n" "length lo = n" "length vol = n"
    and "length cp = n" "length bull = n" "length t = n"
  shows "ToHeikinAshi_body ha
      \<lparr>OHLC.Close = cl, OHLC.Open = op, OHLC.High = hi, OHLC.Low = lo, OHLC.Volume = vol,
       ChangePercent = cp, IsBullMarket = bull, OHLC.Time = t, IsHeikinAshi = flag\<rparr> i =
    (let raw = candle_at \<lparr>OHLC.Close = cl, OHLC.Open = op, OHLC.High = hi, OHLC.Low = lo,
                 OHLC.Volume = vol, ChangePercent = cp, IsBullMarket = bull, OHLC.Time = t,
                 IsHeikinAshi = flag\<rparr> i;
         h = fst (Candle_ToHeikinAshi raw ha)
     in Inr (snd (Candle_ToHeikinAshi raw ha),
        \<lparr>OHLC.Close = cl[i := Candle.Close h], OHLC.Open = op[i := Candle.Open h],
         OHLC.High = hi[i := Candle.High h], OHLC.Low = lo[i := Candle.Low h],
         OHLC.Volume = vol[i := Candle.Volume h],
         ChangePercent =
           cp[i := f64_div (f64_sub (Candle.Close h) (Candle.Open h)) (Candle.Open h)],
         IsBullMarket =
           (if f64_gt (Candle.Close h) (Candle.Open h) then bull[i := True] else bull),
         OHLC.Time = t, IsHeikinAshi = flag\<rparr>))"
proof -
  let ?df = "\<lparr>OHLC.Close = cl, OHLC.Open = op, OHLC.High = hi, OHLC.Low = lo, OHLC.Volume = vol,
       ChangePercent = cp, IsBullMarket = bull, OHLC.Time = t, IsHeikinAshi = flag\<rparr>"
  define h where "h = fst (Candle_ToHeikinAshi (candle_at ?df i) ha)"
  define ha' where "ha' = snd (Candle_ToHeikinAshi (candle_at ?df i) ha)"
  have c: "OHLC_Candle ?df (int i) = Inr (candle_at ?df i)"
    using assms by (simp add: OHLC_Candle_def candle_at_def)
  have "ToHeikinAshi_body ha ?df i =
      Inr (ha',
        \<lparr>OHLC.Close = cl[i := Candle.Close h], OHLC.Open = op[i := Candle.Open h],
         OHLC.High = hi[i := Candle.High h], OHLC.Low = lo[i := Candle.Low h],
         OHLC.Volume = vol[i := Candle.Volume h],
         ChangePercent =
           cp[i := f64_div (f64_sub (Candle.Close h) (Candle.Open h)) (Candle.Open h)],
         IsBullMarket =
           (if f64_gt (Candle.Close h) (Candle.Open h) then bull[i := True] else bull),
         OHLC.Time = t, IsHeikinAshi = flag\<rparr>)"
    unfolding ToHeikinAshi_body_def c bindE_Inr case_prod_beta Let_def
    unfolding h_def [symmetric] ha'_def [symmetric]
    using assms
    by (simp del: f64_add.simps f64_gt.simps)
  then show ?thesis
    unfolding Let_def h_def ha'_def .
qed


lemma take_Suc_update: "k < length xs \<Longrightarrow> take (Suc k) (xs[k := v]) = take k xs @ [v]"
  by (simp add: take_Suc_conv_app_nth)

lemma candle_at_update:
  "j \<noteq> k \<Longrightarrow>
   candle_at \<lparr>OHLC.Close = cl[k := a], OHLC.Open = op[k := b], OHLC.High = hi[k := c],
      OHLC.Low = lo[k := d], OHLC.Volume = vol[k := e], ChangePercent = cp',
      IsBullMarket = bull', OHLC.Time = t, IsHeikinAshi = flag\<rparr> j =
   candle_at \<lparr>OHLC.Close = cl, OHLC.Open = op, OHLC.High = hi, OHLC.Low = lo,
      OHLC.Volume = vol, ChangePercent = cp, IsBullMarket = bull, OHLC.Time = t,
      IsHeikinAshi = flag\<rparr> j"
  by (simp add: candle_at_def)

lemma ToHeikinAshi_loop_eq:
  assumes "k \<le> n"
    and "length cl = n" "length op = n" "length hi = n" "length lo = n" "length vol = n"
    and "length cp = n" "length bull = n" "length t = n"
    and "\<forall>j. k \<le> j \<and> j < n \<longrightarrow> \<not> bull ! j"
  shows "ToHeikinAshi_loop ha
      \<lparr>OHLC.Close = cl, OHLC.Open = op, OHLC.High = hi, OHLC.Low = lo, OHLC.Volume = vol,
       ChangePercent = cp, IsBullMarket = bull, OHLC.Time = t, IsHeikinAshi = flag\<rparr>
      [k..<n] =
    (let hs = smooth_in_order ha
           (map (candle_at \<lparr>OHLC.Close = cl, OHLC.Open = op, OHLC.High = hi, OHLC.Low = lo,
                   OHLC.Volume = vol, ChangePercent = cp, IsBullMarket = bull, OHLC.Time = t,
                   IsHeikinAshi = flag\<rparr>) [k..<n])
     in Inr \<lparr>OHLC.Close = take k cl @ map Candle.Close hs,
          OHLC.Open = take k op @ map Candle.Open hs,
          OHLC.High = take k hi @ map Candle.High hs,
          OHLC.Low = take k lo @ map Candle.Low hs,
          OHLC.Volume = take k vol @ map Candle.Volume hs,
          ChangePercent =
            take k cp @
            map (\<lambda>h. f64_div (f64_sub (Candle.Close h) (Candle.Open h)) (Candle.Open h)) hs,
          IsBullMarket = take k bull @ map (\<lambda>h. f64_gt (Candle.Close h) (Candle.Open h)) hs,
          OHLC.Time = t, IsHeikinAshi = flag\<rparr>)"
  using assms
proof (induction "n - k" arbitrary: k ha cl op hi lo vol cp bull)
  case 0
  then have "k = n" by simp
  with 0 show ?case by simp
next
  case (Suc m)
  let ?df = "\<lparr>OHLC.Close = cl, OHLC.Open = op, OHLC.High = hi, OHLC.Low = lo,
      OHLC.Volume = vol, ChangePercent = cp, IsBullMarket = bull, OHLC.Time = t,
      IsHeikinAshi = flag\<rparr>"
  from Suc.hyps have kn: "k < n" and m: "m = n - Suc k" by simp_all
  define h where "h = fst (Candle_ToHeikinAshi (candle_at ?df k) ha)"
  define ha' where "ha' = snd (Candle_ToHeikinAshi (candle_at ?df k) ha)"
  define g where "g = f64_gt (Candle.Close h) (Candle.Open h)"
  define bull' where "bull' = (if g then bull[k := True] else bull)"
  define cp' where
    "cp' = cp[k := f64_div (f64_sub (Candle.Close h) (Candle.Open h)) (Candle.Open h)]"
  let ?df' = "\<lparr>OHLC.Close = cl[k := Candle.Close h], OHLC.Open = op[k := Candle.Open h],
      OHLC.High = hi[k := Candle.High h], OHLC.Low = lo[k := Candle.Low h],
      OHLC.Volume = vol[k := Candle.Volume h], ChangePercent = cp', IsBullMarket = bull',
      OHLC.Time = t, IsHeikinAshi = flag\<rparr>"
  have body: "ToHeikinAshi_body ha ?df k = Inr (ha', ?df')"
    using ToHeikinAshi_body_eq [OF kn Suc.prems(2-9), of ha flag]
    unfolding Let_def h_def ha'_def g_def bull'_def cp'_def .
  have upt: "[k..<n] = k # [Suc k..<n]"
    using kn by (rule upt_conv_Cons)
  have step: "ToHeikinAshi_loop ha ?df [k..<n] = ToHeikinAshi_loop ha' ?df' [Suc k..<n]"
    unfolding upt ToHeikinAshi_loop.simps body bindE_Inr by simp
  have lens: "length (cl[k := Candle.Close h]) = n" "length (op[k := Candle.Open h]) = n"
    "length (hi[k := Candle.High h]) = n" "length (lo[k := Candle.Low h]) = n"
    "length (vol[k := Candle.Volume h]) = n" "length cp' = n" "length bull' = n"
    using Suc.prems by (simp_all add: cp'_def bull'_def)
  have tail: "\<forall>j. Suc k \<le> j \<and> j < n \<longrightarrow> \<not> bull' ! j"
    using Suc.prems(10) by (simp add: bull'_def)
  have raws: "map (candle_at ?df') [Suc k..<n] = map (candle_at ?df) [Suc k..<n]"
    by (rule map_cong [OF refl]) (simp add: candle_at_update)
  define hs' where "hs' = smooth_in_order ha' (map (candle_at ?df) [Suc k..<n])"
  have hs: "smooth_in_order ha (map (candle_at ?df) [k..<n]) = h # hs'"
    unfolding upt list.map smooth_in_order_Cons h_def ha'_def hs'_def ..
  have IH: "ToHeikinAshi_loop ha' ?df' [Suc k..<n] =
      Inr \<lparr>OHLC.Close = take (Suc k) (cl[k := Candle.Close h]) @ map Candle.Close hs',
          OHLC.Open = take (Suc k) (op[k := Candle.Open h]) @ map Candle.Open hs',
          OHLC.High = take (Suc k) (hi[k := Candle.High h]) @ map Candle.High hs',
          OHLC.Low = take (Suc k) (lo[k := Candle.Low h]) @ map Candle.Low hs',
          OHLC.Volume = take (Suc k) (vol[k := Candle.Volume h]) @ map Candle.Volume hs',
          ChangePercent =
            take (Suc k) cp' @
            map (\<lambda>h. f64_div (f64_sub (Candle.Close h) (Candle.Open h)) (Candle.Open h)) hs',
          IsBullMarket =
            take (Suc k) bull' @ map (\<lambda>h. f64_gt (Candle.Close h) (Candle.Open h)) hs',
          OHLC.Time = t, IsHeikinAshi = flag\<rparr>"
    using Suc.hyps(1) [OF m _ lens Suc.prems(9) tail, of ha'] kn
    unfolding raws Let_def hs'_def by simp
  have bk: "take (Suc k) bull' = take k bull @ [g]"
  proof (cases g)
    case True
    then show ?thesis
      using kn Suc.prems(8) by (simp add: bull'_def take_Suc_update)
  next
    case False
    moreover from Suc.prems(10) kn have "\<not> bull ! k" by simp
    ultimately show ?thesis
      using kn Suc.prems(8) by (simp add: bull'_def take_Suc_conv_app_nth)
  qed
  show ?case
    unfolding step IH hs Let_def bk
    using kn Suc.prems(2-8)
    by (simp add: take_Suc_update cp'_def g_def del: f64_add.simps f64_gt.simps)
qed

lemma ToHeikinAshi_result:
  assumes "aligned df"
  shows "OHLC_ToHeikinAshi df =
    (let hs = smooth_in_order NewHeikinAshi (raw_candles df)
     in Inr \<lparr>OHLC.Close = map Candle.Close hs, OHLC.Open = map Candle.Open hs,
          OHLC.High = map Candle.High hs, OHLC.Low = map Candle.Low hs,
          OHLC.Volume = map Candle.Volume hs,
          ChangePercent =
            map (\<lambda>h. f64_div (f64_sub (Candle.Close h) (Candle.Open h)) (Candle.Open h)) hs,
          IsBullMarket = map (\<lambda>h. f64_gt (Candle.Close h) (Candle.Open h)) hs,
          OHLC.Time = OHLC.Time df, IsHeikinAshi = True\<rparr>)"
proof -
  obtain cl op hi lo vol cp bull t flag where df:
    "df = \<lparr>OHLC.Close = cl, OHLC.Open = op, OHLC.High = hi, OHLC.Low = lo, OHLC.Volume = vol,
        ChangePercent = cp, IsBullMarket = bull, OHLC.Time = t, IsHeikinAshi = flag\<rparr>"
    by (cases df)
  let ?n = "length t"
  let ?df1 = "\<lparr>OHLC.Close = cl, OHLC.Open = op, OHLC.High = hi, OHLC.Low = lo,
      OHLC.Volume = vol, ChangePercent = replicate ?n (Fin 0),
      IsBullMarket = replicate ?n False, OHLC.Time = t, IsHeikinAshi = flag\<rparr>"
  from assms have len: "length cl = ?n" "length op = ?n" "length hi = ?n" "length lo = ?n"
    "length vol = ?n"
    by (simp_all add: aligned_def df)
  have raws: "map (candle_at ?df1) [0..<?n] = raw_candles df"
    unfolding raw_candles_def df by (rule map_cong [OF _ ]) (simp_all add: candle_at_def)
  have loop: "ToHeikinAshi_loop NewHeikinAshi ?df1 [0..<?n] =
    (let hs = smooth_in_order NewHeikinAshi (raw_candles df)
     in Inr \<lparr>OHLC.Close = map Candle.Close hs, OHLC.Open = map Candle.Open hs,
          OHLC.High = map Candle.High hs, OHLC.Low = map Candle.Low hs,
          OHLC.Volume = map Candle.Volume hs,
          ChangePercent =
            map (\<lambda>h. f64_div (f64_sub (Candle.Close h) (Candle.Open h)) (Candle.Open h)) hs,
          IsBullMarket = map (\<lambda>h. f64_gt (Candle.Close h) (Candle.Open h)) hs,
          OHLC.Time = t, IsHeikinAshi = flag\<rparr>)"
    using ToHeikinAshi_loop_eq [of 0 ?n cl op hi lo vol "replicate ?n (Fin 0)"
        "replicate ?n False" t NewHeikinAshi flag] len
    unfolding raws by simp
  have "OHLC_ToHeikinAshi df =
      bindE (ToHeikinAshi_loop NewHeikinAshi ?df1 [0..<?n])
        (\<lambda>df. Inr (df\<lparr>IsHeikinAshi := True\<rparr>))"
    unfolding OHLC_ToHeikinAshi_def Let_def df using len by simp
  then show ?thesis
    unfolding loop Let_def bindE_Inr by (simp add: df)
qed

lemma f64_two_thirds:
  "f64_div (Fin 10) (Fin 15) = Fin (6004799503160661 / 9007199254740992)"
  by code_simp

lemma f64_change_samples:
  "f64_div (f64_sub (Fin 15) (Fin 15)) (Fin 15) = Fin 0"
  "f64_div (f64_sub (Fin 25) (Fin 15)) (Fin 15) = Fin (6004799503160661 / 9007199254740992)"
  "f64_gt (Fin 15) (Fin 15) = False"
  "f64_gt (Fin 25) (Fin 15) = True"
proof -
  have "f64_sub (Fin 25) (Fin 15) = Fin 10"
    by (simp add: f64_eval)
  then show "f64_div (f64_sub (Fin 25) (Fin 15)) (Fin 15) =
      Fin (6004799503160661 / 9007199254740992)"
    by (simp only: f64_two_thirds)
qed (simp_all add: f64_eval)

lemma smooth_two_series:
  "smooth_in_order NewHeikinAshi (raw_candles two_series) =
     [\<lparr>Candle.Pair = [], Candle.Time = 60, UpdatedAt = 0, Candle.Open = Fin 15,
            Candle.Close = Fin 15, Candle.Low = Fin 5, Candle.High = Fin 25,
            Candle.Volume = Fin 7, Complete = False, Candle.Metadata = Map.empty\<rparr>,
      \<lparr>Candle.Pair = [], Candle.Time = 120, UpdatedAt = 0, Candle.Open = Fin 15,
            Candle.Close = Fin 25, Candle.Low = Fin 15, Candle.High = Fin 35,
            Candle.Volume = Fin 9, Complete = False, Candle.Metadata = Map.empty\<rparr>]"
  unfolding raw_candles_two_series
  by (simp add: Candle_ToHeikinAshi_def Calc_fresh_10 Calc_after_15)

text \<open>
  C3. On a series that keeps the invariant, \<^verbatim>\<open>ToHeikinAshi\<close> does not panic. With the
  candles \<^verbatim>\<open>Candle(i)\<close> of the series smoothed in ascending order through one fresh
  recurrence, the call leaves at every index the open, close, low, high and volume of the
  smoothed candle, the change \<open>(close - open) / open\<close> of the smoothed prices, and a
  bull-market flag that is true exactly when the smoothed close is greater than the
  smoothed open; it sets \<^verbatim>\<open>IsHeikinAshi\<close>, and the series it returns is the receiver
  after these writes.
\<close>

theorem ToHeikinAshi_smooths_in_order:
  assumes "aligned df"
  shows "(\<forall>i < length (OHLC.Time df). OHLC_Candle df (int i) = Inr (raw_candles df ! i))
    \<and> (let hs = smooth_in_order NewHeikinAshi (raw_candles df)
       in OHLC_ToHeikinAshi df =
          Inr \<lparr>OHLC.Close = map Candle.Close hs, OHLC.Open = map Candle.Open hs,
               OHLC.High = map Candle.High hs, OHLC.Low = map Candle.Low hs,
               OHLC.Volume = map Candle.Volume hs,
               ChangePercent =
                 map (\<lambda>h. f64_div (f64_sub (Candle.Close h) (Candle.Open h)) (Candle.Open h))
                   hs,
               IsBullMarket = map (\<lambda>h. f64_gt (Candle.Close h) (Candle.Open h)) hs,
               OHLC.Time = OHLC.Time df, IsHeikinAshi = True\<rparr>)"
proof (intro conjI allI impI)
  fix i
  assume "i < length (OHLC.Time df)"
  with assms show "OHLC_Candle df (int i) = Inr (raw_candles df ! i)"
    by (rule OHLC_Candle_raw)
next
  from ToHeikinAshi_result [OF assms]
  show "let hs = smooth_in_order NewHeikinAshi (raw_candles df)
       in OHLC_ToHeikinAshi df =
          Inr \<lparr>OHLC.Close = map Candle.Close hs, OHLC.Open = map Candle.Open hs,
               OHLC.High = map Candle.High hs, OHLC.Low = map Candle.Low hs,
               OHLC.Volume = map Candle.Volume hs,
               ChangePercent =
                 map (\<lambda>h. f64_div (f64_sub (Candle.Close h) (Candle.Open h)) (Candle.Open h))
                   hs,
               IsBullMarket = map (\<lambda>h. f64_gt (Candle.Close h) (Candle.Open h)) hs,
               OHLC.Time = OHLC.Time df, IsHeikinAshi = True\<rparr>"
    unfolding Let_def .
qed

theorem ToHeikinAshi_smooths_in_order_witness:
  "aligned two_series
   \<and> OHLC_ToHeikinAshi two_series =
       Inr \<lparr>OHLC.Close = [Fin 15, Fin 25], OHLC.Open = [Fin 15, Fin 15],
            OHLC.High = [Fin 25, Fin 35], OHLC.Low = [Fin 5, Fin 15],
            OHLC.Volume = [Fin 7, Fin 9],
            ChangePercent = [Fin 0, Fin (6004799503160661 / 9007199254740992)],
            IsBullMarket = [False, True], OHLC.Time = [60, 120], IsHeikinAshi = True\<rparr>"
proof -
  have t: "OHLC.Time two_series = [60, 120]"
    by (simp add: two_series_def)
  from ToHeikinAshi_smooths_in_order [OF aligned_two_series, THEN conjunct2]
  have "OHLC_ToHeikinAshi two_series =
       Inr \<lparr>OHLC.Close = [Fin 15, Fin 25], OHLC.Open = [Fin 15, Fin 15],
            OHLC.High = [Fin 25, Fin 35], OHLC.Low = [Fin 5, Fin 15],
            OHLC.Volume = [Fin 7, Fin 9],
            ChangePercent = [Fin 0, Fin (6004799503160661 / 9007199254740992)],
            IsBullMarket = [False, True], OHLC.Time = [60, 120], IsHeikinAshi = True\<rparr>"
    unfolding Let_def smooth_two_series t
    by (simp add: f64_change_samples del: f64_add.simps f64_gt.simps)
  with aligned_two_series show ?thesis
    by (rule conjI)
qed

text \<open>
  C10. On a series that keeps the invariant, the volume and the time at every index are
  after \<^verbatim>\<open>ToHeikinAshi\<close> what they were before: the volume written back at \<open>i\<close> is the
  one \<^verbatim>\<open>Candle(i)\<close> read there, and the time column is never written.
\<close>

theorem ToHeikinAshi_keeps_Volume_and_Time:
  assumes "aligned df"
  shows "\<exists>df'. OHLC_ToHeikinAshi df = Inr df'
    \<and> OHLC.Volume df' = OHLC.Volume df \<and> OHLC.Time df' = OHLC.Time df
    \<and> (\<forall>i < length (OHLC.Time df).
          OHLC.Volume df' ! i = OHLC.Volume df ! i \<and> OHLC.Time df' ! i = OHLC.Time df ! i)"
proof -
  from assms have "length (OHLC.Volume df) = length (OHLC.Time df)"
    by (simp add: aligned_def)
  then have "map Candle.Volume (smooth_in_order NewHeikinAshi (raw_candles df)) = OHLC.Volume df"
    by (simp only: smooth_in_order_Volume raw_candles_Volume)
  with ToHeikinAshi_result [OF assms] show ?thesis
    unfolding Let_def by simp
qed

theorem ToHeikinAshi_keeps_Volume_and_Time_witness:
  "aligned two_series
   \<and> (\<exists>df'. OHLC_ToHeikinAshi two_series = Inr df'
        \<and> OHLC.Volume df' = [Fin 7, Fin 9] \<and> OHLC.Time df' = [60, 120])"
proof -
  have t: "OHLC.Time two_series = [60, 120]" "OHLC.Volume two_series = [Fin 7, Fin 9]"
    by (simp_all add: two_series_def)
  from ToHeikinAshi_keeps_Volume_and_Time [OF aligned_two_series]
  obtain df' where "OHLC_ToHeikinAshi two_series = Inr df'"
    "OHLC.Volume df' = OHLC.Volume two_series" "OHLC.Time df' = OHLC.Time two_series"
    by blast
  then have "\<exists>df'. OHLC_ToHeikinAshi two_series = Inr df'
        \<and> OHLC.Volume df' = [Fin 7, Fin 9] \<and> OHLC.Time df' = [60, 120]"
    unfolding t by blast
  with aligned_two_series show ?thesis
    by (rule conjI)
qed

end
